theory Spec2Isabelle
  imports Main
begin

section \<open>C characters, strings and buffers\<close>

text \<open>
  A C \<open>char\<close> is an Isabelle \<^typ>\<open>char\<close> (one byte). A \<open>char[N]\<close> buffer is a
  \<^typ>\<open>char list\<close> of length \<open>N\<close>; the C string it holds is the run of bytes before the
  first NUL (\<open>c_str\<close>). A list that holds no NUL is read up to its end.
\<close>

abbreviation NUL :: char where
  "NUL \<equiv> CHR 0x00"

definition c_str :: "char list \<Rightarrow> string" where
  "c_str buf = takeWhile (\<lambda>c. c \<noteq> NUL) buf"

text \<open>
  \<open>strcpy(dst, src)\<close>: the bytes of \<open>src\<close> and the terminating NUL overwrite the start of
  \<open>dst\<close>; the bytes of \<open>dst\<close> behind them stay as they were. Every call of the program
  copies a literal that fits its destination.
\<close>

definition strcpy :: "char list \<Rightarrow> string \<Rightarrow> char list" where
  "strcpy dst src = src @ NUL # drop (Suc (length src)) dst"

text \<open>\<open>isdigit\<close>, \<open>isspace\<close> and \<open>tolower\<close> of \<open>ctype.h\<close> in the "C" locale (the program
  never calls \<open>setlocale\<close>).\<close>

definition isdigit :: "char \<Rightarrow> bool" where
  "isdigit c = (of_char CHR ''0'' \<le> (of_char c :: nat) \<and> (of_char c :: nat) \<le> of_char CHR ''9'')"

definition isspace :: "char \<Rightarrow> bool" where
  "isspace c = (c = CHR '' '' \<or> (9 \<le> (of_char c :: nat) \<and> (of_char c :: nat) \<le> 13))"

definition tolower :: "char \<Rightarrow> char" where
  "tolower c =
     (if of_char CHR ''A'' \<le> (of_char c :: nat) \<and> (of_char c :: nat) \<le> of_char CHR ''Z''
      then char_of ((of_char c :: nat) + 32) else c)"

section \<open>protocol.h: constants and records\<close>

definition BUFFER_SIZE :: nat where "BUFFER_SIZE = 1024"
definition MIN_PASSWORD_LENGTH :: int where "MIN_PASSWORD_LENGTH = 6"
definition MAX_PASSWORD_LENGTH :: int where "MAX_PASSWORD_LENGTH = 32"

text \<open>
  \<open>PasswordRequest\<close>: \<open>char type; char length[BUFFER_SIZE];\<close> The field \<open>length\<close> is
  named \<open>length_str\<close> here, away from the length of lists.
\<close>

record PasswordRequest =
  type :: char
  length_str :: "char list"

text \<open>
  \<open>PasswordResponse\<close>: \<open>bool keep_going; char password[MAX_PASSWORD_LENGTH + 1];
  bool request_error; char error_msg[50];\<close>
\<close>

record PasswordResponse =
  keep_going :: bool
  password :: "char list"
  request_error :: bool
  error_msg :: "char list"

section \<open>The pseudorandom source\<close>

text \<open>
  \<open>rand()\<close> reads a hidden state and returns a non-negative \<open>int\<close>. The state is the
  sequence of the values still to come: \<open>rand\<close> returns its head and the rest.
\<close>

type_synonym rng = "nat \<Rightarrow> nat"

definition rand :: "rng \<Rightarrow> nat \<times> rng" where
  "rand g = (g 0, \<lambda>n. g (Suc n))"

section \<open>password.c: generation\<close>

text \<open>
  \<open>for (int i = i0; i < n; i++) s = body(i, s);\<close> All four generators run this loop over
  the pair of the password buffer and the state of \<open>rand\<close>.
\<close>

function for_loop :: "(nat \<Rightarrow> 's \<Rightarrow> 's) \<Rightarrow> nat \<Rightarrow> nat \<Rightarrow> 's \<Rightarrow> 's" where
  "for_loop body i n s = (if i < n then for_loop body (Suc i) n (body i s) else s)"
  by pat_completeness auto
termination
  by (relation "measure (\<lambda>(body, i, n, s). n - i)") auto

declare for_loop.simps [simp del]

text \<open>
  The generators write \<open>password[0..len-1]\<close> and then \<open>password[len] = '\0'\<close>. The
  parameter \<open>len\<close> is the source's \<open>int length\<close>, which the source requires to be positive
  (\<open>@pre length should be a positive integer\<close>). A write at an index outside the buffer
  is undefined in C; list update leaves the list as it is there, and every theorem below
  keeps \<open>len\<close> inside the buffer.
\<close>

definition generate_numeric :: "char list \<Rightarrow> nat \<Rightarrow> rng \<Rightarrow> char list \<times> rng" where
  "generate_numeric pw len g =
     (let (pw', g') =
        for_loop (\<lambda>i (p, g). let (r, g') = rand g
                              in (p[i := char_of (of_char CHR ''0'' + r mod 10)], g'))
          0 len (pw, g)
      in (pw'[len := NUL], g'))"

definition generate_alpha :: "char list \<Rightarrow> nat \<Rightarrow> rng \<Rightarrow> char list \<times> rng" where
  "generate_alpha pw len g =
     (let (pw', g') =
        for_loop (\<lambda>i (p, g). let (r, g') = rand g
                              in (p[i := char_of (of_char CHR ''a'' + r mod 26)], g'))
          0 len (pw, g)
      in (pw'[len := NUL], g'))"

text \<open>\<open>(rand() % 2) ? 'a' + rand() % 26 : '0' + rand() % 10\<close>: the condition draws first,
  then the chosen branch draws once more.\<close>

definition generate_mixed :: "char list \<Rightarrow> nat \<Rightarrow> rng \<Rightarrow> char list \<times> rng" where
  "generate_mixed pw len g =
     (let (pw', g') =
        for_loop (\<lambda>i (p, g). let (r1, g1) = rand g; (r2, g2) = rand g1
                              in (p[i := (if r1 mod 2 \<noteq> 0
                                          then char_of (of_char CHR ''a'' + r2 mod 26)
                                          else char_of (of_char CHR ''0'' + r2 mod 10))], g2))
          0 len (pw, g)
      in (pw'[len := NUL], g'))"

definition charset :: string where
  "charset = ''abcdefghijklmnopqrstuvwxyzABCDEFGHIJKLMNOPQRSTUVWXYZ0123456789!@#$%^&*()''"

text \<open>\<open>sizeof(charset)\<close> counts the terminating NUL of the literal.\<close>

definition sizeof_charset :: nat where
  "sizeof_charset = Suc (length charset)"

definition generate_secure :: "char list \<Rightarrow> nat \<Rightarrow> rng \<Rightarrow> char list \<times> rng" where
  "generate_secure pw len g =
     (let (pw', g') =
        for_loop (\<lambda>i (p, g). let (r, g') = rand g
                              in (p[i := charset ! (r mod (sizeof_charset - 1))], g'))
          0 len (pw, g)
      in (pw'[len := NUL], g'))"

text \<open>
  \<open>PasswordType\<close> is a C enum: its constants are the integers 0 to 3, and a variable of
  the type can hold any other integer as well. The \<open>switch\<close> of \<open>generate_password\<close> has
  no \<open>default\<close>: for a value that is none of the four constants it writes nothing.
\<close>

type_synonym PasswordType = int

definition NUMERIC :: PasswordType where "NUMERIC = 0"
definition ALPHA :: PasswordType where "ALPHA = 1"
definition MIXED :: PasswordType where "MIXED = 2"
definition SECURE :: PasswordType where "SECURE = 3"

definition generate_password ::
  "char list \<Rightarrow> PasswordType \<Rightarrow> nat \<Rightarrow> rng \<Rightarrow> char list \<times> rng" where
  "generate_password pw ptype len g =
     (if ptype = NUMERIC then generate_numeric pw len g
      else if ptype = ALPHA then generate_alpha pw len g
      else if ptype = MIXED then generate_mixed pw len g
      else if ptype = SECURE then generate_secure pw len g
      else (pw, g))"

text \<open>The alphabets of the four classes, as strings.\<close>

definition digits :: string where
  "digits = ''0123456789''"

definition lowercase :: string where
  "lowercase = ''abcdefghijklmnopqrstuvwxyz''"

definition uppercase :: string where
  "uppercase = ''ABCDEFGHIJKLMNOPQRSTUVWXYZ''"

definition symbols :: string where
  "symbols = ''!@#$%^&*()''"

definition alphabet :: "PasswordType \<Rightarrow> char set" where
  "alphabet ptype =
     (if ptype = NUMERIC then set digits
      else if ptype = ALPHA then set lowercase
      else if ptype = MIXED then set lowercase \<union> set digits
      else if ptype = SECURE then set lowercase \<union> set uppercase \<union> set digits \<union> set symbols
      else {})"

section \<open>password.c: controls\<close>

definition keep_generating :: "char \<Rightarrow> char \<Rightarrow> bool" where
  "keep_generating t type_for_ending = (tolower t \<noteq> tolower type_for_ending)"

text \<open>
  \<open>strchr(s, c)\<close> points at the first \<open>c\<close> in the string \<open>s\<close>, whose terminating NUL is part
  of the string searched (ISO C 7.24.5.2), or is \<open>NULL\<close>. The pointer is the offset into
  \<open>s\<close>; \<open>None\<close> is \<open>NULL\<close>.
\<close>

definition strchr :: "string \<Rightarrow> char \<Rightarrow> nat option" where
  "strchr s c =
     (let t = c_str s @ [NUL]
      in if c \<in> set t then Some (length (takeWhile (\<lambda>x. x \<noteq> c) t)) else None)"

definition control_type :: "string \<Rightarrow> char \<Rightarrow> bool" where
  "control_type allowed_type t = (strchr allowed_type t \<noteq> None)"

text \<open>
  \<open>atoi\<close> (ISO C 7.22.1.2, as \<open>strtol\<close> in base 10): white space is skipped, an optional
  sign is taken, then the longest run of decimal digits; the result is their value when an
  \<open>int\<close> (32 bits on the program's platforms) can hold it. For any other value the standard
  leaves the behaviour undefined and C libraries differ; what the library returns there is
  the parameter \<open>ovf\<close>; a theorem that names no \<open>ovf\<close> of its own holds for every one.
\<close>

definition INT_MAX :: int where "INT_MAX = 2147483647"
definition INT_MIN :: int where "INT_MIN = - 2147483648"

fun digits_value :: "int \<Rightarrow> string \<Rightarrow> int" where
  "digits_value acc [] = acc"
| "digits_value acc (c # cs) =
     (if isdigit c then digits_value (10 * acc + (int (of_char c) - int (of_char CHR ''0''))) cs
      else acc)"

definition atoi :: "(int \<Rightarrow> int) \<Rightarrow> string \<Rightarrow> int" where
  "atoi ovf nptr =
     (let s = dropWhile isspace nptr;
          v = (case s of
                 [] \<Rightarrow> 0
               | c # cs \<Rightarrow>
                   if c = CHR ''-'' then - digits_value 0 cs
                   else if c = CHR ''+'' then digits_value 0 cs
                   else digits_value 0 s)
      in if INT_MIN \<le> v \<and> v \<le> INT_MAX then v else ovf v)"

text \<open>The loop of \<open>control_length\<close>: it runs to the terminating NUL and returns \<open>false\<close> at
  the first character that is no digit.\<close>

fun only_digits :: "string \<Rightarrow> bool" where
  "only_digits [] = True"
| "only_digits (c # cs) =
     (if c = NUL then True else if \<not> isdigit c then False else only_digits cs)"

definition control_length :: "(int \<Rightarrow> int) \<Rightarrow> string \<Rightarrow> int \<Rightarrow> int \<Rightarrow> bool" where
  "control_length ovf length_text min_length max_length =
     (if \<not> only_digits length_text then False
      else let numerical_length = atoi ovf length_text
           in numerical_length \<ge> min_length \<and> numerical_length \<le> max_length)"

text \<open>The value of a string of decimal digits, as a numeral is read: what the
  specification means by the length a text stands for. (\<open>atoi\<close> above is what the code
  calls.)\<close>

definition decimal_value :: "string \<Rightarrow> int" where
  "decimal_value s = foldl (\<lambda>a c. 10 * a + (int (of_char c) - 48)) 0 s"

section \<open>\<open>TCP_server.c\<close>: one request\<close>

definition invalid_length_msg :: string where
  "invalid_length_msg = ''The length for the password is not valid.\<newline>''"

definition invalid_type_msg :: string where
  "invalid_type_msg = ''The type inserted is not valid.\<newline>''"

text \<open>
  The body of the \<open>do\<close> loop of \<open>main\<close> between \<open>recv\<close> and \<open>send\<close>. \<open>response_msg\<close> comes
  in as the last pass (or the declaration, uninitialised) left it. The local
  \<open>password_type\<close> is declared without a value and assigned only in the four cases of the
  \<open>switch\<close>, which has no \<open>default\<close>; \<open>stale_type\<close> is what it holds when no case assigns
  it. An uninitialised local holds some value of its type: the theorems hold for every
  \<open>stale_type\<close> and every incoming \<open>response_msg\<close>.
\<close>

definition serve_request ::
  "(int \<Rightarrow> int) \<Rightarrow> PasswordType \<Rightarrow> PasswordRequest \<Rightarrow> PasswordResponse \<Rightarrow> rng
     \<Rightarrow> PasswordResponse \<times> rng" where
  "serve_request ovf stale_type password_msg response_msg0 g =
     (let response_msg = response_msg0\<lparr>keep_going := keep_generating (type password_msg) CHR ''q''\<rparr>
      in if keep_going response_msg then
           if control_type ''nams'' (type password_msg) then
             if control_length ovf (length_str password_msg) MIN_PASSWORD_LENGTH MAX_PASSWORD_LENGTH then
               let numerical_length = atoi ovf (length_str password_msg);
                   c = tolower (type password_msg);
                   password_type =
                     (if c = CHR ''n'' then NUMERIC
                      else if c = CHR ''a'' then ALPHA
                      else if c = CHR ''m'' then MIXED
                      else if c = CHR ''s'' then SECURE
                      else stale_type);
                   (pw, g') = generate_password (password response_msg) password_type
                                (nat numerical_length) g
               in (response_msg\<lparr>password := pw,
                     error_msg := strcpy (error_msg response_msg) [],
                     request_error := False\<rparr>, g')
             else
               (response_msg\<lparr>password := strcpy (password response_msg) [],
                  error_msg := strcpy (error_msg response_msg) invalid_length_msg,
                  request_error := True\<rparr>, g)
           else
             (response_msg\<lparr>password := strcpy (password response_msg) [],
                error_msg := strcpy (error_msg response_msg) invalid_type_msg,
                request_error := True\<rparr>, g)
         else
           (response_msg\<lparr>password := strcpy (password response_msg) [],
              error_msg := strcpy (error_msg response_msg) [],
              request_error := False\<rparr>, g))"

section \<open>\<open>TCP_server.c\<close>: connections\<close>

text \<open>
  What the network decides is an input of the model. One pass of the \<open>do\<close> loop meets: the
  result of \<open>recv\<close> (a value \<open>\<le> 0\<close>, or a request record), the value of the uninitialised
  \<open>password_type\<close>, and whether \<open>send\<close> transfers \<open>sizeof(response_msg)\<close> bytes. A
  connection is whether the menu is sent whole, the uninitialised \<open>response_msg\<close>, and
  its passes; the listening socket meets a sequence of results of \<open>accept\<close>.
\<close>

datatype recv_result = Recv_failed | Received PasswordRequest

record exchange =
  recv_result :: recv_result
  stale_password_type :: PasswordType
  send_complete :: bool

record connection =
  menu_send_complete :: bool
  initial_response :: PasswordResponse
  exchanges :: "exchange list"

datatype accept_result = Accept_failed | Accepted connection

text \<open>What the server does that a peer can see, in order.\<close>

datatype action = Accept | Send_menu | Send_response PasswordResponse | Closesocket

datatype session_end = Session_closed | Session_fault | Session_waiting

text \<open>
  The \<open>do { ... } while (response_msg.keep_going)\<close> loop. A failed \<open>recv\<close> and a short \<open>send\<close>
  both run \<open>closesocket(client_socket); clearwinsock(); return -1;\<close> (\<open>Session_fault\<close>).
  When the passes run out the server is blocked in \<open>recv\<close>.
\<close>

fun session ::
  "(int \<Rightarrow> int) \<Rightarrow> exchange list \<Rightarrow> PasswordResponse \<Rightarrow> rng
     \<Rightarrow> session_end \<times> action list \<times> rng" where
  "session ovf [] response_msg g = (Session_waiting, [], g)"
| "session ovf (e # es) response_msg g =
     (case recv_result e of
        Recv_failed \<Rightarrow> (Session_fault, [Closesocket], g)
      | Received password_msg \<Rightarrow>
          (let (response_msg', g') =
                 serve_request ovf (stale_password_type e) password_msg response_msg g
           in if \<not> send_complete e then
                (Session_fault, [Send_response response_msg', Closesocket], g')
              else if keep_going response_msg' then
                (let (r, acts, g'') = session ovf es response_msg' g'
                 in (r, Send_response response_msg' # acts, g''))
              else (Session_closed, [Send_response response_msg', Closesocket], g')))"

datatype outcome = Exited int | Blocked_in_accept | Blocked_in_recv

text \<open>
  The \<open>while (1)\<close> loop of \<open>main\<close>: \<open>accept\<close>, the menu, the session. A failed \<open>accept\<close>
  returns 0; a short \<open>send\<close> of the menu and a session fault return -1; only a session
  that ended with \<open>keep_going = false\<close> reaches the end of the loop body and comes back
  to \<open>accept\<close>.
\<close>

fun accept_loop :: "(int \<Rightarrow> int) \<Rightarrow> accept_result list \<Rightarrow> rng \<Rightarrow> outcome \<times> action list" where
  "accept_loop ovf [] g = (Blocked_in_accept, [])"
| "accept_loop ovf (Accept_failed # rest) g = (Exited 0, [Closesocket])"
| "accept_loop ovf (Accepted c # rest) g =
     (if \<not> menu_send_complete c then (Exited (- 1), [Accept, Send_menu, Closesocket])
      else case session ovf (exchanges c) (initial_response c) g of
             (Session_fault, acts, g') \<Rightarrow> (Exited (- 1), Accept # Send_menu # acts)
           | (Session_waiting, acts, g') \<Rightarrow> (Blocked_in_recv, Accept # Send_menu # acts)
           | (Session_closed, acts, g') \<Rightarrow>
               (let (out, acts') = accept_loop ovf rest g'
                in (out, Accept # Send_menu # acts @ acts')))"

text \<open>A pass that meets a transport fault, and a pass that the loop survives.\<close>

definition transport_fault :: "exchange \<Rightarrow> bool" where
  "transport_fault e = (recv_result e = Recv_failed \<or> \<not> send_complete e)"

definition continuing :: "exchange \<Rightarrow> bool" where
  "continuing e =
     (case recv_result e of
        Recv_failed \<Rightarrow> False
      | Received password_msg \<Rightarrow> send_complete e \<and> keep_generating (type password_msg) CHR ''q'')"

section \<open>\<open>TCP_client.c\<close>: the prompt loop\<close>

text \<open>
  \<open>sscanf(input, " %c %s %s", &password_msg.type, password_msg.length, input)\<close> (ISO C
  7.21.6.2): white space is skipped, \<open>%c\<close> takes one character, each \<open>%s\<close> skips white
  space and takes the run of characters up to the next white space. The result is the
  number of conversions stored, or \<open>EOF\<close> when the input ends before the first one. The
  values stored come with it; \<open>None\<close> is a conversion that was not reached. The third
  value goes to \<open>input\<close> itself, which the loop fills again with \<open>fgets\<close> before it is
  read.
\<close>

definition EOF :: int where "EOF = - 1"

definition sscanf_c_s_s :: "string \<Rightarrow> int \<times> char option \<times> string option \<times> string option" where
  "sscanf_c_s_s input =
     (case dropWhile isspace input of
        [] \<Rightarrow> (EOF, None, None, None)
      | c # rest \<Rightarrow>
          (case dropWhile isspace rest of
             [] \<Rightarrow> (1, Some c, None, None)
           | x # xs \<Rightarrow>
               (let s1 = takeWhile (\<lambda>y. \<not> isspace y) (x # xs);
                    rest2 = dropWhile isspace (dropWhile (\<lambda>y. \<not> isspace y) (x # xs))
                in case rest2 of
                     [] \<Rightarrow> (2, Some c, Some s1, None)
                   | y # ys \<Rightarrow>
                       (3, Some c, Some s1, Some (takeWhile (\<lambda>z. \<not> isspace z) (y # ys))))))"

text \<open>
  What one pass of the client's loop meets: the line \<open>fgets\<close> stored in \<open>input\<close>, whether
  \<open>send\<close> transfers \<open>sizeof(password_msg)\<close> bytes, and the response \<open>recv\<close> stores
  (\<open>None\<close>: \<open>recv\<close> returned a value \<open>\<le> 0\<close>).
\<close>

record prompt =
  input_line :: string
  send_whole :: bool
  response_received :: "PasswordResponse option"

datatype client_step = Client_exit int | Client_next PasswordRequest PasswordResponse

text \<open>The \<open>send\<close> and the \<open>recv\<close> of a pass; the list is what was handed to \<open>send\<close>.\<close>

definition client_exchange ::
  "prompt \<Rightarrow> PasswordRequest \<Rightarrow> client_step \<times> PasswordRequest list" where
  "client_exchange pr password_msg =
     (if \<not> send_whole pr then (Client_exit (- 1), [password_msg])
      else case response_received pr of
             None \<Rightarrow> (Client_exit (- 1), [password_msg])
           | Some response_msg \<Rightarrow> (Client_next password_msg response_msg, [password_msg]))"

text \<open>
  One pass of the \<open>do\<close> loop of the client's \<open>main\<close>. \<open>continue\<close> in a \<open>do\<close>-\<open>while\<close> goes
  to the test \<open>while (response_msg.keep_going)\<close>, which the pass has just set to \<open>true\<close>.
\<close>

definition client_iteration ::
  "prompt \<Rightarrow> PasswordRequest \<Rightarrow> PasswordResponse \<Rightarrow> client_step \<times> PasswordRequest list" where
  "client_iteration pr password_msg0 response_msg =
     (let (arguments, c, s1, s2) = sscanf_c_s_s (input_line pr);
          password_msg1 = (case c of None \<Rightarrow> password_msg0
                           | Some t \<Rightarrow> password_msg0\<lparr>type := t\<rparr>);
          password_msg2 = (case s1 of None \<Rightarrow> password_msg1
                           | Some s \<Rightarrow> password_msg1\<lparr>length_str := strcpy (length_str password_msg1) s\<rparr>);
          password_msg = password_msg2\<lparr>length_str := (length_str password_msg2)[BUFFER_SIZE - 1 := NUL]\<rparr>
      in if arguments = 1 then
           client_exchange pr (password_msg\<lparr>length_str := strcpy (length_str password_msg) ''8''\<rparr>)
         else if arguments \<noteq> 2 then
           (Client_next password_msg (response_msg\<lparr>keep_going := True\<rparr>), [])
         else client_exchange pr password_msg)"

datatype client_outcome = Client_exited int | Client_waiting

text \<open>The loop: it ends on a transport fault (\<open>return -1\<close>) or when the response received
  has \<open>keep_going = false\<close> (\<open>return 0\<close>); when the prompts run out it waits in \<open>fgets\<close>.\<close>

fun client_loop ::
  "prompt list \<Rightarrow> PasswordRequest \<Rightarrow> PasswordResponse \<Rightarrow> client_outcome \<times> PasswordRequest list" where
  "client_loop [] password_msg response_msg = (Client_waiting, [])"
| "client_loop (pr # prs) password_msg response_msg =
     (case client_iteration pr password_msg response_msg of
        (Client_exit code, sent) \<Rightarrow> (Client_exited code, sent)
      | (Client_next password_msg' response_msg', sent) \<Rightarrow>
          if keep_going response_msg' then
            (let (out, sent') = client_loop prs password_msg' response_msg'
             in (out, sent @ sent'))
          else (Client_exited 0, sent))"

section \<open>Concrete inputs\<close>

text \<open>Values for the evaluations below: buffers full of NUL, a request with a given
  selector and length text, a \<open>rand\<close> sequence, and for \<open>ovf\<close> the wrap to 32 bits: what a
  library returns whose \<open>atoi\<close> is \<open>(int) strtol(nptr, NULL, 10)\<close> with a \<open>long\<close> of 64 bits,
  for the values a \<open>long\<close> holds.\<close>

definition blank_response :: PasswordResponse where
  "blank_response =
     \<lparr>keep_going = False, password = replicate 33 NUL, request_error = False,
      error_msg = replicate 50 NUL\<rparr>"

definition request :: "char \<Rightarrow> string \<Rightarrow> PasswordRequest" where
  "request t s = \<lparr>type = t, length_str = s @ [NUL]\<rparr>"

definition rand0 :: rng where
  "rand0 = (\<lambda>n. 7 * n + 3)"

definition wrap32 :: "int \<Rightarrow> int" where
  "wrap32 v = (v + 2147483648) mod 4294967296 - 2147483648"

text \<open>Three connections: one whose first \<open>recv\<close> fails, one that sends the sentinel, and
  one that has not sent anything yet.\<close>

definition faulty_connection :: connection where
  "faulty_connection =
     \<lparr>menu_send_complete = True, initial_response = blank_response,
      exchanges = [\<lparr>recv_result = Recv_failed, stale_password_type = 0, send_complete = True\<rparr>]\<rparr>"

definition quitting_connection :: connection where
  "quitting_connection =
     \<lparr>menu_send_complete = True, initial_response = blank_response,
      exchanges = [\<lparr>recv_result = Received (request CHR ''q'' []), stale_password_type = 0,
                    send_complete = True\<rparr>]\<rparr>"

definition silent_connection :: connection where
  "silent_connection =
     \<lparr>menu_send_complete = True, initial_response = blank_response, exchanges = []\<rparr>"

text \<open>A connection served once, whose second response is sent short.\<close>

definition short_send_connection :: connection where
  "short_send_connection =
     \<lparr>menu_send_complete = True, initial_response = blank_response,
      exchanges =
        [\<lparr>recv_result = Received (request CHR ''n'' ''6''), stale_password_type = 0,
          send_complete = True\<rparr>,
         \<lparr>recv_result = Received (request CHR ''a'' ''7''), stale_password_type = 0,
          send_complete = False\<rparr>]\<rparr>"

text \<open>A prompt answered with a line, on a connection that works.\<close>

definition typed :: "string \<Rightarrow> prompt" where
  "typed line =
     \<lparr>input_line = line, send_whole = True,
      response_received = Some (blank_response\<lparr>keep_going := True\<rparr>)\<rparr>"

section \<open>Proofs: the generation loops\<close>

text \<open>The invariant rule of the counting loop.\<close>

lemma for_loop_invariant:
  assumes "I i s" and "i \<le> n"
    and "\<And>j t. i \<le> j \<Longrightarrow> j < n \<Longrightarrow> I j t \<Longrightarrow> I (Suc j) (body j t)"
  shows "I n (for_loop body i n s)"
  using assms
proof (induction body i n s rule: for_loop.induct)
  case (1 body i n s)
  show ?case
  proof (cases "i < n")
    case True
    have "I (Suc i) (body i s)" using 1(2,4) True by simp
    moreover have "Suc i \<le> n" using True by simp
    moreover have "\<And>j t. Suc i \<le> j \<Longrightarrow> j < n \<Longrightarrow> I j t \<Longrightarrow> I (Suc j) (body j t)"
      using 1(4) by simp
    ultimately have "I n (for_loop body (Suc i) n (body i s))"
      using 1(1) True by blast
    then show ?thesis using True by (subst for_loop.simps) simp
  next
    case False
    then have "i = n" using 1(3) by simp
    then show ?thesis using 1(2) by (subst for_loop.simps) simp
  qed
qed

lemma digits_upt: "digits = map (\<lambda>k. char_of (of_char CHR ''0'' + k)) [0..<10]"
  unfolding digits_def by code_simp

lemma lowercase_upt: "lowercase = map (\<lambda>k. char_of (of_char CHR ''a'' + k)) [0..<26]"
  unfolding lowercase_def by code_simp

lemma charset_parts: "charset = lowercase @ uppercase @ digits @ symbols"
  by (simp add: charset_def lowercase_def uppercase_def digits_def symbols_def)

lemma length_charset: "length charset = 72"
  by (simp add: charset_def)

lemma digit_char_in: "char_of (of_char CHR ''0'' + r mod 10 :: nat) \<in> set digits"
proof -
  have "r mod 10 \<in> set [0..<10]" by simp
  then show ?thesis unfolding digits_upt by (simp only: set_map) (rule imageI)
qed

lemma lower_char_in: "char_of (of_char CHR ''a'' + r mod 26 :: nat) \<in> set lowercase"
proof -
  have "r mod 26 \<in> set [0..<26]" by simp
  then show ?thesis unfolding lowercase_upt by (simp only: set_map) (rule imageI)
qed

lemma secure_char_in: "charset ! (r mod (sizeof_charset - 1)) \<in> set charset"
  by (simp add: sizeof_charset_def length_charset)

lemma NUL_notin_charset: "NUL \<notin> set charset"
  by (simp add: charset_def)

lemma c_str_prefix:
  assumes "n < length buf" and "buf ! n = NUL" and "\<forall>k<n. buf ! k \<noteq> NUL"
  shows "c_str buf = take n buf"
proof -
  have "buf = take n buf @ buf ! n # drop (Suc n) buf"
    using assms(1) by (simp add: id_take_nth_drop)
  then have "c_str buf = takeWhile (\<lambda>c. c \<noteq> NUL) (take n buf @ NUL # drop (Suc n) buf)"
    using assms(2) by (simp add: c_str_def)
  also have "\<dots> = take n buf @ takeWhile (\<lambda>c. c \<noteq> NUL) (NUL # drop (Suc n) buf)"
  proof (rule takeWhile_append2)
    fix x assume "x \<in> set (take n buf)"
    then obtain k where "k < n" "k < length buf" "x = buf ! k"
      using assms(1) by (auto simp: in_set_conv_nth)
    then show "x \<noteq> NUL" using assms(3) by simp
  qed
  finally show ?thesis by simp
qed

lemma c_str_filled:
  assumes "n < length buf" and "buf ! n = NUL" and "\<forall>k<n. buf ! k \<in> A" and "NUL \<notin> A"
  shows "c_str buf = take n buf" and "length (c_str buf) = n" and "set (c_str buf) \<subseteq> A"
proof -
  have "\<forall>k<n. buf ! k \<noteq> NUL" using assms(3,4) by auto
  then show eq: "c_str buf = take n buf" using assms(1,2) by (rule c_str_prefix [rotated 2])
  show "length (c_str buf) = n" using eq assms(1) by simp
  show "set (c_str buf) \<subseteq> A"
  proof
    fix x assume "x \<in> set (c_str buf)"
    then obtain k where "k < n" "x = buf ! k"
      using eq assms(1) by (auto simp: in_set_conv_nth)
    then show "x \<in> A" using assms(3) by simp
  qed
qed

lemma for_loop_fill:
  fixes A :: "char set" and g0 :: rng
  assumes "\<And>i p g. \<exists>c g'. body i (p, g) = (p[i := c], g') \<and> c \<in> A"
  shows "length (fst (for_loop body 0 n (p0, g0))) = length p0 \<and>
         (\<forall>k<n. k < length p0 \<longrightarrow> fst (for_loop body 0 n (p0, g0)) ! k \<in> A)"
proof (rule for_loop_invariant
    [where I = "\<lambda>j s. length (fst s) = length p0 \<and> (\<forall>k<j. k < length p0 \<longrightarrow> fst s ! k \<in> A)"])
  show "length (fst (p0, g0)) = length p0 \<and> (\<forall>k<0. k < length p0 \<longrightarrow> fst (p0, g0) ! k \<in> A)"
    by simp
  show "0 \<le> n" by simp
  fix j :: nat and t :: "char list \<times> rng"
  assume inv: "length (fst t) = length p0 \<and> (\<forall>k<j. k < length p0 \<longrightarrow> fst t ! k \<in> A)"
  obtain p g where t: "t = (p, g)" by (cases t)
  obtain c g' where b: "body j (p, g) = (p[j := c], g')" and c: "c \<in> A"
    using assms by blast
  show "length (fst (body j t)) = length p0 \<and>
        (\<forall>k<Suc j. k < length p0 \<longrightarrow> fst (body j t) ! k \<in> A)"
    using inv c by (auto simp: t b nth_list_update less_Suc_eq)
qed

lemma terminated_fill:
  fixes A :: "char set" and g :: rng
  assumes "\<And>i p g. \<exists>c g'. body i (p, g) = (p[i := c], g') \<and> c \<in> A"
    and "len < length pw"
  shows "case (case for_loop body 0 len (pw, g) of (p, g') \<Rightarrow> (p[len := NUL], g')) of
           (p, g') \<Rightarrow> length p = length pw \<and> p ! len = NUL \<and> (\<forall>k<len. p ! k \<in> A)"
  using for_loop_fill [OF assms(1), of len pw g] assms(2)
  by (auto split: prod.splits)

lemma generate_numeric_buffer:
  assumes "len < length pw"
  shows "case generate_numeric pw len g of
           (p, g') \<Rightarrow> length p = length pw \<and> p ! len = NUL \<and> (\<forall>k<len. p ! k \<in> set digits)"
  unfolding generate_numeric_def Let_def
  apply (rule terminated_fill [OF _ assms])
  using digit_char_in apply (auto simp: rand_def)
  done

lemma generate_alpha_buffer:
  assumes "len < length pw"
  shows "case generate_alpha pw len g of
           (p, g') \<Rightarrow> length p = length pw \<and> p ! len = NUL \<and> (\<forall>k<len. p ! k \<in> set lowercase)"
  unfolding generate_alpha_def Let_def
  apply (rule terminated_fill [OF _ assms])
  using lower_char_in apply (auto simp: rand_def)
  done

lemma generate_mixed_buffer:
  assumes "len < length pw"
  shows "case generate_mixed pw len g of
           (p, g') \<Rightarrow> length p = length pw \<and> p ! len = NUL \<and>
             (\<forall>k<len. p ! k \<in> set lowercase \<union> set digits)"
  unfolding generate_mixed_def Let_def
  apply (rule terminated_fill [OF _ assms])
  using lower_char_in digit_char_in apply (auto simp: rand_def)
  done

lemma generate_secure_buffer:
  assumes "len < length pw"
  shows "case generate_secure pw len g of
           (p, g') \<Rightarrow> length p = length pw \<and> p ! len = NUL \<and> (\<forall>k<len. p ! k \<in> set charset)"
  unfolding generate_secure_def Let_def
  apply (rule terminated_fill [OF _ assms])
  using secure_char_in apply (auto simp: rand_def)
  done

text \<open>The string a generator leaves, for any length the buffer has room for.\<close>

lemma generate_password_c_str:
  assumes "ptype = NUMERIC \<or> ptype = ALPHA \<or> ptype = MIXED \<or> ptype = SECURE"
    and "len < length pw"
  shows "case generate_password pw ptype len g of
           (p, g') \<Rightarrow> length p = length pw \<and> p ! len = NUL \<and>
             c_str p = take len p \<and> length (c_str p) = len \<and> set (c_str p) \<subseteq> alphabet ptype"
proof -
  obtain p g' where r: "generate_password pw ptype len g = (p, g')"
    by (cases "generate_password pw ptype len g")
  have buf: "length p = length pw \<and> p ! len = NUL \<and> (\<forall>k<len. p ! k \<in> alphabet ptype)"
    using assms(1)
  proof (elim disjE)
    assume "ptype = NUMERIC"
    then show ?thesis
      using generate_numeric_buffer [OF assms(2), of g] r
      by (simp add: generate_password_def alphabet_def)
  next
    assume "ptype = ALPHA"
    then show ?thesis
      using generate_alpha_buffer [OF assms(2), of g] r
      by (simp add: generate_password_def alphabet_def NUMERIC_def ALPHA_def)
  next
    assume "ptype = MIXED"
    then show ?thesis
      using generate_mixed_buffer [OF assms(2), of g] r
      by (simp add: generate_password_def alphabet_def NUMERIC_def ALPHA_def MIXED_def)
  next
    assume "ptype = SECURE"
    then show ?thesis
      using generate_secure_buffer [OF assms(2), of g] r
      by (simp add: generate_password_def alphabet_def NUMERIC_def ALPHA_def MIXED_def
          SECURE_def charset_parts)
  qed
  have nul: "NUL \<notin> alphabet ptype"
    by (simp add: alphabet_def digits_def lowercase_def uppercase_def symbols_def)
  have "len < length p" "p ! len = NUL" "\<forall>k<len. p ! k \<in> alphabet ptype"
    using buf assms(2) by simp_all
  from c_str_filled [OF this nul] buf
  show ?thesis by (simp add: r)
qed

text \<open>
  C3. For every length from 6 to 32 and each of the four classes, \<open>generate_password\<close>
  leaves in the buffer a NUL-terminated string of exactly that many characters, each one a
  member of the alphabet of the class: the decimal digits for NUMERIC, the lowercase
  letters for ALPHA, lowercase letters and digits for MIXED, and letters, digits and the
  symbols \<open>!@#$%^&*()\<close> for SECURE. The buffer has room for the string and its NUL, as the
  header of \<open>generate_password\<close> asks; with that room the same holds for any length
  (\<open>generate_password_c_str\<close>).
\<close>

theorem generate_password_length_alphabet:
  assumes "6 \<le> len" and "len \<le> 32"
    and "ptype = NUMERIC \<or> ptype = ALPHA \<or> ptype = MIXED \<or> ptype = SECURE"
    and "len < length pw"
  shows "case generate_password pw ptype len g of
           (p, g') \<Rightarrow> length p = length pw \<and> p ! len = NUL \<and>
             c_str p = take len p \<and> length (c_str p) = len \<and> set (c_str p) \<subseteq> alphabet ptype"
  using assms(3,4) by (rule generate_password_c_str)

theorem generate_password_length_alphabet_witness:
  "c_str (fst (generate_password (replicate 33 NUL) NUMERIC 6 (\<lambda>n. 7 * n + 3))) = ''307418'' \<and>
   length (c_str (fst (generate_password (replicate 33 NUL) NUMERIC 6 (\<lambda>n. 7 * n + 3)))) = 6 \<and>
   set (c_str (fst (generate_password (replicate 33 NUL) NUMERIC 6 (\<lambda>n. 7 * n + 3))))
     \<subseteq> alphabet NUMERIC"
proof -
  have v: "c_str (fst (generate_password (replicate 33 NUL) NUMERIC 6 (\<lambda>n. 7 * n + 3))) = ''307418''"
    by code_simp
  have "case generate_password (replicate 33 NUL) NUMERIC 6 (\<lambda>n. 7 * n + 3) of
          (p, g') \<Rightarrow> length p = length (replicate 33 NUL) \<and> p ! 6 = NUL \<and>
            c_str p = take 6 p \<and> length (c_str p) = 6 \<and> set (c_str p) \<subseteq> alphabet NUMERIC"
    by (rule generate_password_length_alphabet) simp_all
  then have "length (c_str (fst (generate_password (replicate 33 NUL) NUMERIC 6 (\<lambda>n. 7 * n + 3)))) = 6 \<and>
     set (c_str (fst (generate_password (replicate 33 NUL) NUMERIC 6 (\<lambda>n. 7 * n + 3))))
       \<subseteq> alphabet NUMERIC"
    unfolding split_beta by blast
  with v show ?thesis by blast
qed

text \<open>What \<open>generate_secure\<close> writes, position by position, and the state of \<open>rand\<close> it
  leaves.\<close>

lemma generate_secure_positions:
  assumes "len < length pw"
  shows "length (fst (generate_secure pw len g)) = length pw \<and>
         fst (generate_secure pw len g) ! len = NUL \<and>
         (\<forall>k<len. fst (generate_secure pw len g) ! k = charset ! (g k mod 72)) \<and>
         snd (generate_secure pw len g) = (\<lambda>n. g (n + len))"
proof -
  let ?body = "\<lambda>i (p, g). let (r, g') = rand g
                 in (p[i := charset ! (r mod (sizeof_charset - 1))], g')"
  let ?I = "\<lambda>j s. length (fst s) = length pw \<and> snd s = (\<lambda>n. g (n + j)) \<and>
                 (\<forall>k<j. fst s ! k = charset ! (g k mod 72))"
  have "?I len (for_loop ?body 0 len (pw, g))"
  proof (rule for_loop_invariant [where I = ?I])
    show "?I 0 (pw, g)" by simp
    show "0 \<le> len" by simp
    fix j :: nat and t :: "char list \<times> rng"
    assume j: "0 \<le> j" "j < len" and inv: "?I j t"
    obtain p h where t: "t = (p, h)" by (cases t)
    have h: "h = (\<lambda>n. g (n + j))" and lp: "length p = length pw"
      and ks: "\<forall>k<j. p ! k = charset ! (g k mod 72)"
      using inv by (simp_all add: t)
    have jl: "j < length p" using j(2) assms lp by simp
    have b: "?body j t = (p[j := charset ! (g j mod 72)], \<lambda>n. g (n + Suc j))"
      by (simp add: t h rand_def sizeof_charset_def length_charset)
    show "?I (Suc j) (?body j t)"
      unfolding b using lp ks jl by (auto simp: nth_list_update less_Suc_eq)
  qed
  then show ?thesis
    using assms by (auto simp: generate_secure_def split_beta Let_def)
qed

text \<open>Every character of \<open>charset\<close> is drawn for some value of \<open>rand\<close>, and no other.\<close>

lemma secure_draw_range:
  "range (\<lambda>r. charset ! (r mod (sizeof_charset - 1))) = set charset"
proof
  show "range (\<lambda>r. charset ! (r mod (sizeof_charset - 1))) \<subseteq> set charset"
    using secure_char_in by auto
  show "set charset \<subseteq> range (\<lambda>r. charset ! (r mod (sizeof_charset - 1)))"
  proof
    fix c assume "c \<in> set charset"
    then obtain i where i: "i < length charset" "c = charset ! i"
      by (auto simp: in_set_conv_nth)
    then have "c = charset ! (i mod (sizeof_charset - 1))"
      by (simp add: sizeof_charset_def)
    then show "c \<in> range (\<lambda>r. charset ! (r mod (sizeof_charset - 1)))" by blast
  qed
qed

text \<open>
  C4 (as the code has it). \<open>generate_secure\<close> sets position \<open>k\<close> of the password to
  \<open>charset[rand() % (sizeof(charset) - 1)]\<close> for the \<open>k\<close>-th value \<open>rand\<close> returns, and
  \<open>sizeof(charset) - 1\<close> is 72. The characters a position can take are exactly those of
  \<open>charset\<close>, a fixed string of 72 distinct characters: the 26 lowercase letters, the 26
  uppercase letters, the 10 decimal digits and the 10 symbols \<open>!@#$%^&*()\<close>, in this order.
\<close>

theorem generate_secure_alphabet_72:
  "(len < length pw \<longrightarrow>
      (\<forall>k<len. fst (generate_secure pw len g) ! k = charset ! (g k mod (sizeof_charset - 1))) \<and>
      c_str (fst (generate_secure pw len g)) = map (\<lambda>k. charset ! (g k mod 72)) [0..<len]) \<and>
   sizeof_charset - 1 = 72 \<and>
   range (\<lambda>r. charset ! (r mod (sizeof_charset - 1))) = set charset \<and>
   length charset = 72 \<and> distinct charset \<and> card (set charset) = 72 \<and>
   charset = lowercase @ uppercase @ digits @ symbols \<and>
   length lowercase = 26 \<and> length uppercase = 26 \<and> length digits = 10 \<and>
   length symbols = 10"
proof -
  have s: "sizeof_charset - 1 = 72" by (simp add: sizeof_charset_def length_charset)
  have d: "distinct charset" by (simp add: charset_def)
  have c: "card (set charset) = 72" using distinct_card [OF d] by (simp add: length_charset)
  have l: "length lowercase = 26 \<and> length uppercase = 26 \<and> length digits = 10 \<and>
    length symbols = 10"
    by (simp add: lowercase_def uppercase_def digits_def symbols_def)
  have p: "len < length pw \<longrightarrow>
      (\<forall>k<len. fst (generate_secure pw len g) ! k = charset ! (g k mod (sizeof_charset - 1))) \<and>
      c_str (fst (generate_secure pw len g)) = map (\<lambda>k. charset ! (g k mod 72)) [0..<len]"
  proof
    assume a: "len < length pw"
    let ?p = "fst (generate_secure pw len g)"
    from generate_secure_positions [OF a, of g]
    have lp: "length ?p = length pw" and n: "?p ! len = NUL"
      and k: "\<forall>k<len. ?p ! k = charset ! (g k mod 72)" by blast+
    have "charset ! (r mod 72) \<in> set charset" for r
      using secure_char_in [of r] unfolding s .
    then have "\<forall>k<len. ?p ! k \<in> set charset"
      using k by simp
    from c_str_filled(1) [OF _ n this NUL_notin_charset] a lp
    have "c_str ?p = take len ?p" by simp
    also have "\<dots> = map (\<lambda>k. charset ! (g k mod 72)) [0..<len]"
      using k a lp by (intro nth_equalityI) simp_all
    finally show "(\<forall>k<len. ?p ! k = charset ! (g k mod (sizeof_charset - 1))) \<and>
      c_str ?p = map (\<lambda>k. charset ! (g k mod 72)) [0..<len]"
      unfolding s using k by blast
  qed
  show ?thesis
    using p s secure_draw_range length_charset d c charset_parts l by blast
qed

text \<open>Eight characters from the sequence \<open>rand0\<close>.\<close>

theorem generate_secure_alphabet_72_witness:
  "c_str (fst (generate_secure (replicate 33 NUL) 8 rand0)) =
     map (\<lambda>k. charset ! (rand0 k mod 72)) [0..<8] \<and>
   c_str (fst (generate_secure (replicate 33 NUL) 8 rand0)) = ''dkryFMT0'' \<and>
   fst (generate_secure (replicate 33 NUL) 8 rand0) ! 4 = charset ! (rand0 4 mod (sizeof_charset - 1))"
proof -
  have v: "c_str (fst (generate_secure (replicate 33 NUL) 8 rand0)) = ''dkryFMT0''"
    by code_simp
  have a: "(8::nat) < length (replicate 33 NUL)" "(4::nat) < 8" by simp_all
  from generate_secure_alphabet_72 [of 8 "replicate 33 NUL" rand0] a
  have "c_str (fst (generate_secure (replicate 33 NUL) 8 rand0)) =
     map (\<lambda>k. charset ! (rand0 k mod 72)) [0..<8]"
    and "fst (generate_secure (replicate 33 NUL) 8 rand0) ! 4 =
      charset ! (rand0 4 mod (sizeof_charset - 1))"
    by blast+
  with v show ?thesis by blast
qed

text \<open>
  C4 as stated fails: the alphabet has 72 characters, not 74. Drawing the values 0 to 73
  in turn gives the 72 characters of \<open>charset\<close> and then \<open>a\<close> and \<open>b\<close> again.
\<close>

theorem secure_alphabet_not_74:
  "c_str (fst (generate_secure (replicate 75 NUL) 74 (\<lambda>n. n))) = charset @ ''ab'' \<and>
   card (set (c_str (fst (generate_secure (replicate 75 NUL) 74 (\<lambda>n. n))))) = 72 \<and>
   length charset \<noteq> 74 \<and> card (set charset) \<noteq> 74 \<and> sizeof_charset - 1 \<noteq> 74"
proof -
  have v: "c_str (fst (generate_secure (replicate 75 NUL) 74 (\<lambda>n. n))) = charset @ ''ab''"
    by code_simp
  have d: "distinct charset" by (simp add: charset_def)
  have c: "card (set charset) = 72" using distinct_card [OF d] by (simp add: length_charset)
  have "set (charset @ ''ab'') = set charset" by (auto simp: charset_def)
  then show ?thesis using v c by (simp add: length_charset sizeof_charset_def)
qed

section \<open>Proofs: the controls\<close>

lemma tolower_q: "tolower c = CHR ''q'' \<longleftrightarrow> c = CHR ''q'' \<or> c = CHR ''Q''"
proof -
  have lt: "(of_char c :: nat) < 256" by simp
  show ?thesis
  proof (cases "of_char CHR ''A'' \<le> (of_char c :: nat) \<and> (of_char c :: nat) \<le> of_char CHR ''Z''")
    case True
    then have b: "(of_char c :: nat) + 32 < 256" by simp
    have t: "tolower c = char_of ((of_char c :: nat) + 32)"
      using True by (simp add: tolower_def)
    have "tolower c = CHR ''q'' \<longleftrightarrow> take_bit 8 ((of_char c :: nat) + 32) = of_char CHR ''q''"
      unfolding t by (rule char_of_eq_iff)
    also have "\<dots> \<longleftrightarrow> (of_char c :: nat) + 32 = 113"
      using b by (simp add: take_bit_nat_eq_self)
    also have "\<dots> \<longleftrightarrow> (of_char c :: nat) = of_char CHR ''Q''" by auto
    also have "\<dots> \<longleftrightarrow> c = CHR ''Q''" by (simp only: of_char_eq_iff)
    finally have "tolower c = CHR ''q'' \<longleftrightarrow> c = CHR ''Q''" .
    moreover have "c \<noteq> CHR ''q''" using True by auto
    ultimately show ?thesis by simp
  next
    case False
    then have "tolower c = c" unfolding tolower_def by (simp only: if_False)
    moreover have "c \<noteq> CHR ''Q''" using False by auto
    ultimately show ?thesis by simp
  qed
qed

lemma keep_generating_q:
  "keep_generating t CHR ''q'' \<longleftrightarrow> t \<noteq> CHR ''q'' \<and> t \<noteq> CHR ''Q''"
proof -
  have q: "tolower CHR ''q'' = CHR ''q''" by (simp add: tolower_def)
  show ?thesis unfolding keep_generating_def q by (simp add: tolower_q)
qed

lemma control_type_nams:
  "control_type ''nams'' t \<longleftrightarrow> t = CHR ''n'' \<or> t = CHR ''a'' \<or> t = CHR ''m'' \<or> t = CHR ''s'' \<or> t = NUL"
  by (auto simp: control_type_def strchr_def c_str_def Let_def)

lemma isdigit_simps:
  "isdigit c \<Longrightarrow> \<not> isspace c" "isdigit c \<Longrightarrow> c \<noteq> CHR ''-''" "isdigit c \<Longrightarrow> c \<noteq> CHR ''+''"
  "isdigit c \<Longrightarrow> c \<noteq> NUL"
  by (auto simp: isdigit_def isspace_def)

lemma not_isdigit_NUL: "\<not> isdigit NUL" "\<not> isspace NUL"
  by (simp_all add: isdigit_def isspace_def)

lemma only_digits_c_str: "only_digits s \<longleftrightarrow> list_all isdigit (c_str s)"
  by (induction s) (simp_all add: c_str_def)

lemma digits_value_c_str:
  "only_digits s \<Longrightarrow>
   digits_value a s = foldl (\<lambda>a c. 10 * a + (int (of_char c) - 48)) a (c_str s)"
proof (induction s arbitrary: a)
  case Nil
  then show ?case by (simp add: c_str_def)
next
  case (Cons c cs)
  show ?case
  proof (cases "c = NUL")
    case True
    then show ?thesis by (simp add: c_str_def not_isdigit_NUL)
  next
    case False
    then have d: "isdigit c" and r: "only_digits cs" using Cons.prems by (auto split: if_splits)
    show ?thesis using False d Cons.IH [OF r] by (simp add: c_str_def)
  qed
qed

lemma foldl_digits_nonneg:
  "list_all isdigit t \<Longrightarrow> 0 \<le> a \<Longrightarrow> 0 \<le> foldl (\<lambda>a c. 10 * a + (int (of_char c) - 48)) a t"
proof (induction t arbitrary: a)
  case Nil
  then show ?case by simp
next
  case (Cons c t)
  have "48 \<le> (of_char c :: nat)" using Cons.prems(1) by (simp add: isdigit_def)
  then have "0 \<le> 10 * a + (int (of_char c) - 48)" using Cons.prems(2) by simp
  then show ?case using Cons.IH Cons.prems(1) by simp
qed

lemma decimal_value_nonneg: "list_all isdigit t \<Longrightarrow> 0 \<le> decimal_value t"
  unfolding decimal_value_def by (rule foldl_digits_nonneg) simp_all

lemma atoi_only_digits:
  assumes "only_digits s"
  shows "atoi ovf s =
           (if decimal_value (c_str s) \<le> INT_MAX then decimal_value (c_str s)
            else ovf (decimal_value (c_str s)))"
proof -
  have v: "digits_value 0 s = decimal_value (c_str s)"
    using digits_value_c_str [OF assms, of 0] by (simp add: decimal_value_def)
  have n: "0 \<le> decimal_value (c_str s)"
    using assms by (simp add: only_digits_c_str decimal_value_nonneg)
  have body: "(case dropWhile isspace s of [] \<Rightarrow> 0
               | c # cs \<Rightarrow> if c = CHR ''-'' then - digits_value 0 cs
                   else if c = CHR ''+'' then digits_value 0 cs
                   else digits_value 0 (dropWhile isspace s)) = decimal_value (c_str s)"
  proof (cases s)
    case Nil
    then show ?thesis by (simp add: decimal_value_def c_str_def)
  next
    case (Cons c cs)
    show ?thesis
    proof (cases "c = NUL")
      case True
      then show ?thesis using Cons v by (simp add: not_isdigit_NUL)
    next
      case False
      then have "isdigit c" using assms Cons by (auto split: if_splits)
      then show ?thesis using Cons v by (simp add: isdigit_simps)
    qed
  qed
  show ?thesis
    unfolding atoi_def Let_def body using n by (simp add: INT_MIN_def)
qed

lemma atoi_decimal:
  "list_all isdigit (c_str s) \<Longrightarrow> decimal_value (c_str s) \<le> INT_MAX \<Longrightarrow>
   atoi ovf s = decimal_value (c_str s)"
  by (simp add: atoi_only_digits only_digits_c_str)

lemma control_length_iff:
  "control_length ovf s lo hi \<longleftrightarrow>
     list_all isdigit (c_str s) \<and> lo \<le> atoi ovf s \<and> atoi ovf s \<le> hi"
  by (simp add: control_length_def only_digits_c_str Let_def)

lemma atoi_empty: "c_str s = [] \<Longrightarrow> atoi ovf s = 0"
proof -
  assume e: "c_str s = []"
  then have "only_digits s" by (simp add: only_digits_c_str)
  from atoi_only_digits [OF this, of ovf] e show ?thesis
    by (simp add: decimal_value_def INT_MAX_def)
qed

text \<open>
  Where the decimal value of the text fits an \<open>int\<close>, \<open>control_length(text, 6, 32)\<close> is
  true exactly when the text is not empty, consists of decimal digits only and its value
  lies in the range 6 to 32; in general the test is on what \<open>atoi\<close> returns. The texts \<open>6\<close>
  and \<open>32\<close> are accepted and \<open>5\<close> and \<open>33\<close> are rejected.
\<close>

lemma control_length_6_32:
  "(control_length ovf s 6 32 \<longleftrightarrow>
      c_str s \<noteq> [] \<and> list_all isdigit (c_str s) \<and> 6 \<le> atoi ovf s \<and> atoi ovf s \<le> 32) \<and>
   (decimal_value (c_str s) \<le> INT_MAX \<longrightarrow>
      (control_length ovf s 6 32 \<longleftrightarrow>
         c_str s \<noteq> [] \<and> list_all isdigit (c_str s) \<and>
         6 \<le> decimal_value (c_str s) \<and> decimal_value (c_str s) \<le> 32)) \<and>
   control_length ovf ''6'' 6 32 \<and> control_length ovf ''32'' 6 32 \<and>
   \<not> control_length ovf ''5'' 6 32 \<and> \<not> control_length ovf ''33'' 6 32"
proof -
  have e: "c_str s = [] \<Longrightarrow> \<not> control_length ovf s 6 32"
    by (simp add: control_length_iff atoi_empty)
  have a: "control_length ovf s 6 32 \<longleftrightarrow>
      c_str s \<noteq> [] \<and> list_all isdigit (c_str s) \<and> 6 \<le> atoi ovf s \<and> atoi ovf s \<le> 32"
    using e by (auto simp: control_length_iff)
  have b: "decimal_value (c_str s) \<le> INT_MAX \<longrightarrow>
      (control_length ovf s 6 32 \<longleftrightarrow>
         c_str s \<noteq> [] \<and> list_all isdigit (c_str s) \<and>
         6 \<le> decimal_value (c_str s) \<and> decimal_value (c_str s) \<le> 32)"
    using a by (auto simp: atoi_decimal)
  have c: "control_length ovf ''6'' 6 32" "control_length ovf ''32'' 6 32"
    "\<not> control_length ovf ''5'' 6 32" "\<not> control_length ovf ''33'' 6 32"
    by (simp_all add: control_length_def atoi_def isdigit_def isspace_def INT_MIN_def
        INT_MAX_def Let_def)
  show ?thesis using a b c by blast
qed

lemma control_length_6_32_examples:
  "control_length wrap32 ''008'' 6 32 \<and> decimal_value (c_str ''008'') = 8 \<and>
   \<not> control_length wrap32 ''8a'' 6 32 \<and> \<not> control_length wrap32 ''100'' 6 32"
proof -
  have d: "decimal_value (c_str ''008'') = 8" "decimal_value (c_str ''100'') = 100"
    "decimal_value (c_str ''8a'') = 129"
    by (simp_all add: decimal_value_def c_str_def)
  have i: "list_all isdigit (c_str ''008'')" "list_all isdigit (c_str ''100'')"
    "\<not> list_all isdigit (c_str ''8a'')" "c_str ''008'' \<noteq> []"
    by (simp_all add: c_str_def isdigit_def)
  have "control_length wrap32 ''008'' 6 32"
    using control_length_6_32 [of wrap32 "''008''", THEN conjunct2, THEN conjunct1]
    by (simp add: d i INT_MAX_def)
  moreover have "\<not> control_length wrap32 ''8a'' 6 32"
    using control_length_6_32 [of wrap32 "''8a''", THEN conjunct2, THEN conjunct1]
    by (simp add: d i INT_MAX_def)
  moreover have "\<not> control_length wrap32 ''100'' 6 32"
    using control_length_6_32 [of wrap32 "''100''", THEN conjunct2, THEN conjunct1]
    by (simp add: d i INT_MAX_def)
  ultimately show ?thesis using d(1) by blast
qed

section \<open>Proofs: one request of the server\<close>

lemma c_str_strcpy: "NUL \<notin> set src \<Longrightarrow> c_str (strcpy dst src) = src"
proof -
  assume n: "NUL \<notin> set src"
  have "takeWhile (\<lambda>c. c \<noteq> NUL) (src @ NUL # drop (Suc (length src)) dst) =
        src @ takeWhile (\<lambda>c. c \<noteq> NUL) (NUL # drop (Suc (length src)) dst)"
    by (rule takeWhile_append2) (use n in auto)
  then show ?thesis by (simp add: c_str_def strcpy_def)
qed

lemma c_str_strcpy_empty: "c_str (strcpy dst []) = []"
  by (simp add: c_str_def strcpy_def)

lemma msgs:
  "NUL \<notin> set invalid_type_msg" "NUL \<notin> set invalid_length_msg"
  "invalid_type_msg \<noteq> []" "invalid_length_msg \<noteq> []"
  "invalid_type_msg \<noteq> invalid_length_msg"
  by (simp_all add: invalid_type_msg_def invalid_length_msg_def)

text \<open>The four ways through the body of the server's loop.\<close>

lemma serve_request_quit:
  assumes "type m = CHR ''q'' \<or> type m = CHR ''Q''"
  shows "serve_request ovf st m r g =
           (r\<lparr>keep_going := False, password := strcpy (password r) [],
              error_msg := strcpy (error_msg r) [], request_error := False\<rparr>, g)"
  using assms by (auto simp: serve_request_def Let_def keep_generating_q)

lemma serve_request_invalid_type:
  assumes "type m \<noteq> CHR ''q''" and "type m \<noteq> CHR ''Q''"
    and "\<not> control_type ''nams'' (type m)"
  shows "serve_request ovf st m r g =
           (r\<lparr>keep_going := True, password := strcpy (password r) [],
              error_msg := strcpy (error_msg r) invalid_type_msg, request_error := True\<rparr>, g)"
  using assms by (simp add: serve_request_def Let_def keep_generating_q)

lemma serve_request_invalid_length:
  assumes "type m \<noteq> CHR ''q''" and "type m \<noteq> CHR ''Q''"
    and "control_type ''nams'' (type m)"
    and "\<not> control_length ovf (length_str m) MIN_PASSWORD_LENGTH MAX_PASSWORD_LENGTH"
  shows "serve_request ovf st m r g =
           (r\<lparr>keep_going := True, password := strcpy (password r) [],
              error_msg := strcpy (error_msg r) invalid_length_msg, request_error := True\<rparr>, g)"
  using assms by (simp add: serve_request_def Let_def keep_generating_q)

lemma serve_request_generate:
  assumes "type m \<noteq> CHR ''q''" and "type m \<noteq> CHR ''Q''"
    and "control_type ''nams'' (type m)"
    and "control_length ovf (length_str m) MIN_PASSWORD_LENGTH MAX_PASSWORD_LENGTH"
  shows "serve_request ovf st m r g =
           (case generate_password (password r)
                   (if tolower (type m) = CHR ''n'' then NUMERIC
                    else if tolower (type m) = CHR ''a'' then ALPHA
                    else if tolower (type m) = CHR ''m'' then MIXED
                    else if tolower (type m) = CHR ''s'' then SECURE else st)
                   (nat (atoi ovf (length_str m))) g of
              (pw, g') \<Rightarrow>
                (r\<lparr>keep_going := True, password := pw,
                   error_msg := strcpy (error_msg r) [], request_error := False\<rparr>, g'))"
  using assms by (simp add: serve_request_def Let_def keep_generating_q split: prod.splits)

lemma tolower_nams:
  "tolower CHR ''n'' = CHR ''n''" "tolower CHR ''a'' = CHR ''a''"
  "tolower CHR ''m'' = CHR ''m''" "tolower CHR ''s'' = CHR ''s''" "tolower NUL = NUL"
  by (simp_all add: tolower_def)

lemma serve_request_password:
  assumes t: "type m = CHR ''n'' \<or> type m = CHR ''a'' \<or> type m = CHR ''m'' \<or> type m = CHR ''s''"
    and ok: "control_length ovf (length_str m) MIN_PASSWORD_LENGTH MAX_PASSWORD_LENGTH"
    and room: "length (password r) = 33"
  shows "keep_going (fst (serve_request ovf st m r g)) \<and>
         \<not> request_error (fst (serve_request ovf st m r g)) \<and>
         c_str (error_msg (fst (serve_request ovf st m r g))) = [] \<and>
         int (length (c_str (password (fst (serve_request ovf st m r g))))) =
           atoi ovf (length_str m) \<and>
         set (c_str (password (fst (serve_request ovf st m r g)))) \<subseteq>
           set lowercase \<union> set uppercase \<union> set digits \<union> set symbols"
proof -
  let ?ty = "if tolower (type m) = CHR ''n'' then NUMERIC
             else if tolower (type m) = CHR ''a'' then ALPHA
             else if tolower (type m) = CHR ''m'' then MIXED
             else if tolower (type m) = CHR ''s'' then SECURE else st"
  let ?n = "nat (atoi ovf (length_str m))"
  have nq: "type m \<noteq> CHR ''q''" "type m \<noteq> CHR ''Q''" using t by auto
  have ct: "control_type ''nams'' (type m)" using t by (auto simp: control_type_nams)
  have rng: "6 \<le> atoi ovf (length_str m)" "atoi ovf (length_str m) \<le> 32"
    using ok by (simp_all add: control_length_iff MIN_PASSWORD_LENGTH_def MAX_PASSWORD_LENGTH_def)
  have ty: "?ty = NUMERIC \<or> ?ty = ALPHA \<or> ?ty = MIXED \<or> ?ty = SECURE"
    using t by (auto simp: tolower_nams)
  have n: "?n < length (password r)" using rng room by simp
  obtain p g' where gp: "generate_password (password r) ?ty ?n g = (p, g')"
    by (cases "generate_password (password r) ?ty ?n g")
  from generate_password_c_str [OF ty n, of g, unfolded gp prod.case]
  have p: "length (c_str p) = ?n" "set (c_str p) \<subseteq> alphabet ?ty"
    by blast+
  have al: "alphabet ?ty \<subseteq> set lowercase \<union> set uppercase \<union> set digits \<union> set symbols"
    using ty by (auto simp: alphabet_def NUMERIC_def ALPHA_def MIXED_def SECURE_def)
  have s: "serve_request ovf st m r g =
      (r\<lparr>keep_going := True, password := p, error_msg := strcpy (error_msg r) [],
         request_error := False\<rparr>, g')"
    using serve_request_generate [OF nq ct ok, of st r g] by (simp add: gp)
  show ?thesis using p al rng by (auto simp: s c_str_strcpy_empty)
qed

text \<open>
  C10. A length text of decimal digits whose value lies in the range 6 to 32 is accepted
  by value, whatever its number of characters (leading zeros included): \<open>control_length\<close>
  is true, and for a selector \<open>n\<close>, \<open>a\<close>, \<open>m\<close> or \<open>s\<close> the server answers with a password
  whose length is that value. The response buffer is the \<open>char[33]\<close> of
  \<open>PasswordResponse\<close>.
\<close>

theorem leading_zeros_by_value:
  assumes "type m = CHR ''n'' \<or> type m = CHR ''a'' \<or> type m = CHR ''m'' \<or> type m = CHR ''s''"
    and "list_all isdigit (c_str (length_str m))"
    and "6 \<le> decimal_value (c_str (length_str m))"
    and "decimal_value (c_str (length_str m)) \<le> 32"
    and "length (password r) = 33"
  shows "control_length ovf (length_str m) MIN_PASSWORD_LENGTH MAX_PASSWORD_LENGTH \<and>
         keep_going (fst (serve_request ovf st m r g)) \<and>
         \<not> request_error (fst (serve_request ovf st m r g)) \<and>
         int (length (c_str (password (fst (serve_request ovf st m r g))))) =
           decimal_value (c_str (length_str m))"
proof -
  have a: "atoi ovf (length_str m) = decimal_value (c_str (length_str m))"
    using assms(2,4) by (intro atoi_decimal) (simp_all add: INT_MAX_def)
  have ok: "control_length ovf (length_str m) MIN_PASSWORD_LENGTH MAX_PASSWORD_LENGTH"
    using assms(2,3,4) a
    by (simp add: control_length_iff MIN_PASSWORD_LENGTH_def MAX_PASSWORD_LENGTH_def)
  from serve_request_password [OF assms(1) ok assms(5), of st g] a ok
  show ?thesis by simp
qed

theorem leading_zeros_by_value_witness:
  "control_length wrap32 (length_str (request CHR ''n'' ''008'')) MIN_PASSWORD_LENGTH
     MAX_PASSWORD_LENGTH \<and>
   length (c_str (password (fst (serve_request wrap32 0 (request CHR ''n'' ''008'')
     blank_response rand0)))) = 8 \<and>
   length ''008'' = 3 \<and>
   c_str (password (fst (serve_request wrap32 0 (request CHR ''n'' ''008'')
     blank_response rand0))) = ''30741852''"
proof -
  have d: "decimal_value (c_str (length_str (request CHR ''n'' ''008''))) = 8"
    by (simp add: decimal_value_def c_str_def request_def)
  have i: "list_all isdigit (c_str (length_str (request CHR ''n'' ''008'')))"
    by (simp add: c_str_def isdigit_def request_def)
  have t: "type (request CHR ''n'' ''008'') = CHR ''n''" by (simp add: request_def)
  have r: "length (password blank_response) = 33" by (simp add: blank_response_def)
  have v: "c_str (password (fst (serve_request wrap32 0 (request CHR ''n'' ''008'')
     blank_response rand0))) = ''30741852''"
    by code_simp
  have "control_length wrap32 (length_str (request CHR ''n'' ''008'')) MIN_PASSWORD_LENGTH
          MAX_PASSWORD_LENGTH \<and>
        int (length (c_str (password (fst (serve_request wrap32 0 (request CHR ''n'' ''008'')
          blank_response rand0))))) = 8"
    using leading_zeros_by_value [of "request CHR ''n'' ''008''" blank_response wrap32 0 rand0]
      d i t r by simp
  then show ?thesis using v by simp
qed

text \<open>Beyond \<open>INT_MAX\<close> the test is on the value the library returns.\<close>

lemma control_length_beyond_INT_MAX:
  assumes "list_all isdigit (c_str s)" and "INT_MAX < decimal_value (c_str s)"
  shows "control_length ovf s lo hi \<longleftrightarrow>
           lo \<le> ovf (decimal_value (c_str s)) \<and> ovf (decimal_value (c_str s)) \<le> hi"
proof -
  have "only_digits s" using assms(1) by (simp add: only_digits_c_str)
  from atoi_only_digits [OF this, of ovf] assms(2)
  have "atoi ovf s = ovf (decimal_value (c_str s))" by simp
  then show ?thesis using assms(1) by (simp add: control_length_iff)
qed

text \<open>
  C5 (the code at the failing input). The text \<open>4294967302\<close> consists of decimal digits
  and its value, 2^32 + 6, is far outside the range 6 to 32, yet \<open>control_length\<close> does
  not reject it on its own: the value does not fit an \<open>int\<close>, nothing in \<open>control_length\<close>
  guards the call of \<open>atoi\<close>, and the answer is whatever the C library returns there. With
  a library whose \<open>atoi\<close> is \<open>(int) strtol(nptr, NULL, 10)\<close> the result wraps to 6: the
  text is accepted and the server answers with a password of 6 characters.
\<close>

theorem control_length_accepts_overflow:
  "list_all isdigit (c_str ''4294967302'') \<and>
   decimal_value (c_str ''4294967302'') = 4294967302 \<and>
   \<not> decimal_value (c_str ''4294967302'') \<le> 32 \<and>
   control_length ovf ''4294967302'' 6 32 =
     (6 \<le> ovf 4294967302 \<and> ovf 4294967302 \<le> 32) \<and>
   atoi wrap32 ''4294967302'' = 6 \<and>
   control_length wrap32 ''4294967302'' 6 32 \<and>
   \<not> request_error (fst (serve_request wrap32 0 (request CHR ''n'' ''4294967302'')
      blank_response rand0)) \<and>
   c_str (password (fst (serve_request wrap32 0 (request CHR ''n'' ''4294967302'')
      blank_response rand0))) = ''307418''"
proof -
  have i: "list_all isdigit (c_str ''4294967302'')"
    by (simp add: c_str_def isdigit_def)
  have d: "decimal_value (c_str ''4294967302'') = 4294967302"
    by (simp add: c_str_def decimal_value_def)
  have m: "INT_MAX < decimal_value (c_str ''4294967302'')"
    by (simp add: d INT_MAX_def)
  have g: "control_length ovf ''4294967302'' 6 32 =
     (6 \<le> ovf 4294967302 \<and> ovf 4294967302 \<le> 32)"
    using control_length_beyond_INT_MAX [OF i m, of ovf 6 32] by (simp only: d)
  have w: "atoi wrap32 ''4294967302'' = 6"
    "control_length wrap32 ''4294967302'' 6 32"
    "\<not> request_error (fst (serve_request wrap32 0 (request CHR ''n'' ''4294967302'')
      blank_response rand0))"
    "c_str (password (fst (serve_request wrap32 0 (request CHR ''n'' ''4294967302'')
      blank_response rand0))) = ''307418''"
    by code_simp+
  show ?thesis using i d g w by simp
qed

lemma serve_request_keep_going:
  "keep_going (fst (serve_request ovf st m r g)) \<longleftrightarrow>
     \<not> (type m = CHR ''q'' \<or> type m = CHR ''Q'')"
  by (simp add: serve_request_def Let_def keep_generating_q split: prod.splits)

lemma serve_request_cases:
  obtains (quit) "type m = CHR ''q'' \<or> type m = CHR ''Q''"
  | (invalid_type) "type m \<noteq> CHR ''q''" "type m \<noteq> CHR ''Q''" "\<not> control_type ''nams'' (type m)"
  | (invalid_length) "type m \<noteq> CHR ''q''" "type m \<noteq> CHR ''Q''" "control_type ''nams'' (type m)"
      "\<not> control_length ovf (length_str m) MIN_PASSWORD_LENGTH MAX_PASSWORD_LENGTH"
  | (generate) "type m \<noteq> CHR ''q''" "type m \<noteq> CHR ''Q''" "control_type ''nams'' (type m)"
      "control_length ovf (length_str m) MIN_PASSWORD_LENGTH MAX_PASSWORD_LENGTH"
  by blast

text \<open>
  C7. In every pass of the loop the response has \<open>keep_going = false\<close> exactly when the
  selector of the request is the sentinel \<open>q\<close> or \<open>Q\<close>. A response that reports an error
  (\<open>request_error\<close> set, or one of the two rejection messages in \<open>error_msg\<close>) has
  \<open>keep_going = true\<close>: a rejection does not end the session.
\<close>

theorem keep_going_false_iff_sentinel:
  "(\<not> keep_going (fst (serve_request ovf st m r g)) \<longleftrightarrow>
      type m = CHR ''q'' \<or> type m = CHR ''Q'') \<and>
   (request_error (fst (serve_request ovf st m r g)) \<longrightarrow>
      keep_going (fst (serve_request ovf st m r g))) \<and>
   (c_str (error_msg (fst (serve_request ovf st m r g))) = invalid_type_msg \<or>
    c_str (error_msg (fst (serve_request ovf st m r g))) = invalid_length_msg \<longrightarrow>
      keep_going (fst (serve_request ovf st m r g)))"
proof (cases rule: serve_request_cases [where m = m and ovf = ovf])
  case quit
  then show ?thesis
    using msgs(3,4) by (auto simp: serve_request_quit c_str_strcpy_empty)
next
  case invalid_type
  then show ?thesis by (simp add: serve_request_invalid_type)
next
  case invalid_length
  then show ?thesis by (simp add: serve_request_invalid_length)
next
  case generate
  then show ?thesis by (simp add: serve_request_generate split: prod.splits)
qed

theorem keep_going_false_iff_sentinel_witness:
  "\<not> keep_going (fst (serve_request wrap32 0 (request CHR ''Q'' ''8'') blank_response rand0)) \<and>
   keep_going (fst (serve_request wrap32 0 (request CHR ''x'' ''8'') blank_response rand0)) \<and>
   request_error (fst (serve_request wrap32 0 (request CHR ''x'' ''8'') blank_response rand0)) \<and>
   keep_going (fst (serve_request wrap32 0 (request CHR ''n'' ''5'') blank_response rand0)) \<and>
   c_str (error_msg (fst (serve_request wrap32 0 (request CHR ''n'' ''5'') blank_response rand0)))
     = invalid_length_msg"
proof -
  have e: "c_str (error_msg (fst (serve_request wrap32 0 (request CHR ''n'' ''5'')
      blank_response rand0))) = invalid_length_msg"
    "request_error (fst (serve_request wrap32 0 (request CHR ''x'' ''8'') blank_response rand0))"
    by code_simp+
  have t: "type (request CHR ''Q'' ''8'') = CHR ''Q''" "type (request CHR ''x'' ''8'') = CHR ''x''"
    by (simp_all add: request_def)
  show ?thesis
    using keep_going_false_iff_sentinel [of wrap32 0 "request CHR ''Q'' ''8''" blank_response rand0]
      keep_going_false_iff_sentinel [of wrap32 0 "request CHR ''x'' ''8''" blank_response rand0]
      keep_going_false_iff_sentinel [of wrap32 0 "request CHR ''n'' ''5''" blank_response rand0]
      e t
    by simp
qed

text \<open>In the session loop a pass that ends in a rejection, sent whole, is followed by the
  next pass: the session goes on as the remaining passes decide.\<close>

lemma rejection_keeps_session:
  assumes "recv_result e = Received m" and "send_complete e"
    and "request_error (fst (serve_request ovf (stale_password_type e) m r g))"
  shows "fst (session ovf (e # es) r g) =
         fst (session ovf es (fst (serve_request ovf (stale_password_type e) m r g))
                (snd (serve_request ovf (stale_password_type e) m r g)))"
proof -
  obtain r' g' where s: "serve_request ovf (stale_password_type e) m r g = (r', g')"
    by (cases "serve_request ovf (stale_password_type e) m r g")
  have "type m \<noteq> CHR ''q'' \<and> type m \<noteq> CHR ''Q''"
    using assms(3) by (auto simp: serve_request_quit)
  then have "keep_going r'"
    using serve_request_keep_going [of ovf "stale_password_type e" m r g] by (simp add: s)
  then show ?thesis using assms(1,2) by (simp add: s split_beta)
qed

text \<open>For every selector but NUL the response has the shape the protocol describes:
  with \<open>keep_going\<close> exactly one of password and error message is not empty, and
  \<open>request_error\<close> says which; without it both are empty.\<close>

lemma response_shape:
  assumes "type m \<noteq> NUL" and "length (password r) = 33"
  shows "(keep_going (fst (serve_request ovf st m r g)) \<longrightarrow>
            (c_str (password (fst (serve_request ovf st m r g))) \<noteq> [] \<and>
             c_str (error_msg (fst (serve_request ovf st m r g))) = [] \<and>
             \<not> request_error (fst (serve_request ovf st m r g))) \<or>
            (c_str (password (fst (serve_request ovf st m r g))) = [] \<and>
             c_str (error_msg (fst (serve_request ovf st m r g))) \<noteq> [] \<and>
             request_error (fst (serve_request ovf st m r g)))) \<and>
         (\<not> keep_going (fst (serve_request ovf st m r g)) \<longrightarrow>
            c_str (password (fst (serve_request ovf st m r g))) = [] \<and>
            c_str (error_msg (fst (serve_request ovf st m r g))) = [] \<and>
            \<not> request_error (fst (serve_request ovf st m r g)))"
proof (cases rule: serve_request_cases [where m = m and ovf = ovf])
  case quit
  then show ?thesis by (auto simp: serve_request_quit c_str_strcpy_empty)
next
  case invalid_type
  then show ?thesis by (simp add: serve_request_invalid_type c_str_strcpy c_str_strcpy_empty msgs)
next
  case invalid_length
  then show ?thesis by (simp add: serve_request_invalid_length c_str_strcpy c_str_strcpy_empty msgs)
next
  case generate
  then have t: "type m = CHR ''n'' \<or> type m = CHR ''a'' \<or> type m = CHR ''m'' \<or> type m = CHR ''s''"
    using assms(1) by (simp add: control_type_nams)
  have "6 \<le> atoi ovf (length_str m)"
    using generate(4) by (simp add: control_length_iff MIN_PASSWORD_LENGTH_def)
  with serve_request_password [OF t generate(4) assms(2), of st g]
  show ?thesis by auto
qed

text \<open>All four uppercase class letters are rejected as types.\<close>

lemma uppercase_selectors_rejected:
  assumes "type m = CHR ''N'' \<or> type m = CHR ''A'' \<or> type m = CHR ''M'' \<or> type m = CHR ''S''"
  shows "request_error (fst (serve_request ovf st m r g)) \<and>
         c_str (error_msg (fst (serve_request ovf st m r g))) = invalid_type_msg"
proof -
  have "\<not> control_type ''nams'' (type m)" using assms by (auto simp: control_type_nams)
  moreover have "type m \<noteq> CHR ''q''" "type m \<noteq> CHR ''Q''" using assms by auto
  ultimately show ?thesis by (simp add: serve_request_invalid_type c_str_strcpy msgs)
qed

text \<open>
  C6 (as the code has it). For every request whose selector is no class letter in either
  case (its lower case is none of \<open>n\<close>, \<open>a\<close>, \<open>m\<close>, \<open>s\<close>), is not the sentinel \<open>q\<close>/\<open>Q\<close> and
  is not NUL, the response reports the type error: \<open>keep_going\<close> and \<open>request_error\<close> are
  true, the password is empty and \<open>error_msg\<close> is the type message, which differs from the
  length message. The length is not looked at: the response is the same for every length
  text, every \<open>atoi\<close> and every stale \<open>password_type\<close>.
\<close>

theorem type_error_before_length:
  assumes "type m \<noteq> CHR ''q''" and "type m \<noteq> CHR ''Q''"
    and "tolower (type m) \<notin> set ''nams''" and "type m \<noteq> NUL"
  shows "keep_going (fst (serve_request ovf st m r g)) \<and>
         request_error (fst (serve_request ovf st m r g)) \<and>
         c_str (error_msg (fst (serve_request ovf st m r g))) = invalid_type_msg \<and>
         invalid_type_msg \<noteq> invalid_length_msg \<and>
         c_str (password (fst (serve_request ovf st m r g))) = [] \<and>
         serve_request ovf st m r g = serve_request ovf' st' (m\<lparr>length_str := l\<rparr>) r g"
proof -
  have "type m \<notin> set ''nams''"
    using assms(3) tolower_nams by auto
  then have ct: "\<not> control_type ''nams'' (type m)"
    using assms(4) by (simp add: control_type_nams)
  have "serve_request ovf st m r g =
      (r\<lparr>keep_going := True, password := strcpy (password r) [],
         error_msg := strcpy (error_msg r) invalid_type_msg, request_error := True\<rparr>, g)"
    using assms(1,2) ct by (rule serve_request_invalid_type)
  moreover have "serve_request ovf' st' (m\<lparr>length_str := l\<rparr>) r g =
      (r\<lparr>keep_going := True, password := strcpy (password r) [],
         error_msg := strcpy (error_msg r) invalid_type_msg, request_error := True\<rparr>, g)"
    using assms(1,2) ct by (intro serve_request_invalid_type) simp_all
  ultimately show ?thesis
    by (simp add: c_str_strcpy c_str_strcpy_empty msgs)
qed

text \<open>The selector \<open>x\<close> with the length text \<open>abc\<close>, itself invalid.\<close>

theorem type_error_before_length_witness:
  "request_error (fst (serve_request wrap32 0 (request CHR ''x'' ''abc'') blank_response rand0)) \<and>
   c_str (error_msg (fst (serve_request wrap32 0 (request CHR ''x'' ''abc'') blank_response rand0)))
     = invalid_type_msg \<and>
   \<not> control_length wrap32 (length_str (request CHR ''x'' ''abc'')) MIN_PASSWORD_LENGTH
     MAX_PASSWORD_LENGTH \<and>
   serve_request wrap32 0 (request CHR ''x'' ''abc'') blank_response rand0 =
     serve_request wrap32 0 (request CHR ''x'' ''8'') blank_response rand0"
proof -
  have t: "(request CHR ''x'' ''abc'')\<lparr>length_str := length_str (request CHR ''x'' ''8'')\<rparr> =
       request CHR ''x'' ''8''"
    by (simp add: request_def)
  have l: "\<not> control_length wrap32 (length_str (request CHR ''x'' ''abc'')) MIN_PASSWORD_LENGTH
     MAX_PASSWORD_LENGTH"
    by (simp add: control_length_def request_def isdigit_def)
  have "keep_going (fst (serve_request wrap32 0 (request CHR ''x'' ''abc'') blank_response rand0)) \<and>
     request_error (fst (serve_request wrap32 0 (request CHR ''x'' ''abc'') blank_response rand0)) \<and>
     c_str (error_msg (fst (serve_request wrap32 0 (request CHR ''x'' ''abc'') blank_response rand0)))
       = invalid_type_msg \<and>
     invalid_type_msg \<noteq> invalid_length_msg \<and>
     c_str (password (fst (serve_request wrap32 0 (request CHR ''x'' ''abc'') blank_response rand0)))
       = [] \<and>
     serve_request wrap32 0 (request CHR ''x'' ''abc'') blank_response rand0 =
       serve_request wrap32 0
         ((request CHR ''x'' ''abc'')\<lparr>length_str := length_str (request CHR ''x'' ''8'')\<rparr>)
         blank_response rand0"
    by (rule type_error_before_length) (simp_all add: request_def tolower_def)
  then show ?thesis using l unfolding t by blast
qed

text \<open>
  C6 as stated fails. The sentinel \<open>q\<close> is no allowed class either, and with the invalid
  length \<open>abc\<close> its response reports no error at all: the \<open>keep_going\<close> test stands before
  the validation. The selector NUL is no allowed class, yet \<open>strchr\<close> finds it in \<open>"nams"\<close>
  (at the terminator), so with \<open>abc\<close> the response reports the length error.
\<close>

theorem type_error_not_for_every_selector:
  "CHR ''q'' \<notin> set ''nams'' \<and> NUL \<notin> set ''nams'' \<and>
   \<not> control_length wrap32 (length_str (request CHR ''q'' ''abc'')) MIN_PASSWORD_LENGTH
     MAX_PASSWORD_LENGTH \<and>
   \<not> request_error (fst (serve_request wrap32 0 (request CHR ''q'' ''abc'') blank_response rand0)) \<and>
   c_str (error_msg (fst (serve_request wrap32 0 (request CHR ''q'' ''abc'') blank_response rand0)))
     = [] \<and>
   c_str (error_msg (fst (serve_request wrap32 0 (request NUL ''abc'') blank_response rand0)))
     = invalid_length_msg \<and>
   invalid_length_msg \<noteq> invalid_type_msg"
  by code_simp

text \<open>
  C1 (the code at the failing input). The class check is \<open>strchr("nams", type)\<close>, which
  compares bytes: the selector \<open>N\<close> with the valid length \<open>8\<close> is rejected with the type
  message, although \<open>keep_generating\<close> and the \<open>switch\<close> both lower the case of the selector.
\<close>

theorem uppercase_selector_rejected:
  "\<not> control_type ''nams'' CHR ''N'' \<and>
   control_length wrap32 (length_str (request CHR ''N'' ''8'')) MIN_PASSWORD_LENGTH
     MAX_PASSWORD_LENGTH \<and>
   keep_going (fst (serve_request wrap32 0 (request CHR ''N'' ''8'') blank_response rand0)) \<and>
   request_error (fst (serve_request wrap32 0 (request CHR ''N'' ''8'') blank_response rand0)) \<and>
   c_str (error_msg (fst (serve_request wrap32 0 (request CHR ''N'' ''8'') blank_response rand0)))
     = invalid_type_msg \<and>
   c_str (password (fst (serve_request wrap32 0 (request CHR ''N'' ''8'') blank_response rand0)))
     = []"
  by code_simp

text \<open>
  C8 (the code at the failing input). The selector NUL passes \<open>control_type\<close>; with the
  valid length \<open>8\<close> no case of the \<open>switch\<close> assigns \<open>password_type\<close>, and when the value it
  holds is none of the four constants \<open>generate_password\<close> writes nothing. After a rejected
  request the password buffer holds the empty string, so the response has \<open>keep_going\<close>
  true with both the password and the error message empty.
\<close>

theorem nul_selector_breaks_shape:
  "keep_going (fst (serve_request wrap32 4 (request NUL ''8'')
      (fst (serve_request wrap32 4 (request CHR ''x'' ''8'') blank_response rand0)) rand0)) \<and>
   \<not> request_error (fst (serve_request wrap32 4 (request NUL ''8'')
      (fst (serve_request wrap32 4 (request CHR ''x'' ''8'') blank_response rand0)) rand0)) \<and>
   c_str (password (fst (serve_request wrap32 4 (request NUL ''8'')
      (fst (serve_request wrap32 4 (request CHR ''x'' ''8'') blank_response rand0)) rand0))) = [] \<and>
   c_str (error_msg (fst (serve_request wrap32 4 (request NUL ''8'')
      (fst (serve_request wrap32 4 (request CHR ''x'' ''8'') blank_response rand0)) rand0))) = []"
  by code_simp

section \<open>Proofs: the connections of the server\<close>

lemma session_fault:
  assumes "list_all continuing pre" and "transport_fault e"
  shows "\<exists>acts g'. session ovf (pre @ e # post) r g = (Session_fault, acts, g') \<and>
           acts \<noteq> [] \<and> last acts = Closesocket \<and> Accept \<notin> set acts"
  using assms(1)
proof (induction pre arbitrary: r g)
  case Nil
  show ?case
  proof (cases "recv_result e")
    case Recv_failed
    then show ?thesis by simp
  next
    case (Received m)
    then have "\<not> send_complete e" using assms(2) by (simp add: transport_fault_def)
    then show ?thesis using Received by (simp add: split_beta)
  qed
next
  case (Cons x xs)
  from Cons.prems have cx: "continuing x" and xs: "list_all continuing xs" by simp_all
  from cx obtain m where x: "recv_result x = Received m" "send_complete x"
    "keep_generating (type m) CHR ''q''"
    by (auto simp: continuing_def split: recv_result.splits)
  obtain r' g1 where s: "serve_request ovf (stale_password_type x) m r g = (r', g1)"
    by (cases "serve_request ovf (stale_password_type x) m r g")
  have k: "keep_going r'"
    using serve_request_keep_going [of ovf "stale_password_type x" m r g] x(3)
    by (simp add: s keep_generating_q)
  obtain acts g' where t: "session ovf (xs @ e # post) r' g1 = (Session_fault, acts, g')"
    "acts \<noteq> []" "last acts = Closesocket" "Accept \<notin> set acts"
    using Cons.IH [OF xs, of r' g1] by blast
  show ?case using x s k t by simp
qed

lemma session_closed:
  assumes "list_all continuing pre" and "recv_result e = Received m"
    and "type m = CHR ''q'' \<or> type m = CHR ''Q''" and "send_complete e"
  shows "\<exists>acts g'. session ovf (pre @ e # post) r g = (Session_closed, acts, g') \<and>
           acts \<noteq> [] \<and> last acts = Closesocket \<and> Accept \<notin> set acts"
  using assms(1)
proof (induction pre arbitrary: r g)
  case Nil
  obtain r' g1 where s: "serve_request ovf (stale_password_type e) m r g = (r', g1)"
    by (cases "serve_request ovf (stale_password_type e) m r g")
  have "\<not> keep_going r'"
    using serve_request_keep_going [of ovf "stale_password_type e" m r g] assms(3)
    by (simp add: s)
  then show ?case using assms(2,4) s by simp
next
  case (Cons x xs)
  from Cons.prems have cx: "continuing x" and xs: "list_all continuing xs" by simp_all
  from cx obtain m' where x: "recv_result x = Received m'" "send_complete x"
    "keep_generating (type m') CHR ''q''"
    by (auto simp: continuing_def split: recv_result.splits)
  obtain r' g1 where s: "serve_request ovf (stale_password_type x) m' r g = (r', g1)"
    by (cases "serve_request ovf (stale_password_type x) m' r g")
  have k: "keep_going r'"
    using serve_request_keep_going [of ovf "stale_password_type x" m' r g] x(3)
    by (simp add: s keep_generating_q)
  obtain acts g' where t: "session ovf (xs @ e # post) r' g1 = (Session_closed, acts, g')"
    "acts \<noteq> []" "last acts = Closesocket" "Accept \<notin> set acts"
    using Cons.IH [OF xs, of r' g1] by blast
  show ?case using x s k t by simp
qed

text \<open>A session that the sentinel ends brings the server back to \<open>accept\<close>.\<close>

lemma sentinel_returns_to_accept:
  assumes "menu_send_complete c" and "exchanges c = pre @ e # post"
    and "list_all continuing pre" and "recv_result e = Received m"
    and "type m = CHR ''q'' \<or> type m = CHR ''Q''" and "send_complete e"
  shows "\<exists>acts g'. last acts = Closesocket \<and>
           accept_loop ovf (Accepted c # rest) g =
             (fst (accept_loop ovf rest g'),
              Accept # Send_menu # acts @ snd (accept_loop ovf rest g'))"
proof -
  obtain acts g' where s: "session ovf (exchanges c) (initial_response c) g =
      (Session_closed, acts, g')" and l: "last acts = Closesocket"
    using session_closed [OF assms(3,4,5,6), of ovf post "initial_response c" g] assms(2)
    by auto
  show ?thesis using assms(1) s l by (auto simp: split_beta)
qed

text \<open>A menu sent short ends the server as well.\<close>

lemma menu_fault_ends_server:
  "\<not> menu_send_complete c \<Longrightarrow>
   accept_loop ovf (Accepted c # rest) g = (Exited (- 1), [Accept, Send_menu, Closesocket])"
  by simp

text \<open>
  C2 (as the code has it). A transport fault on a client connection, that is a \<open>recv\<close> that
  returns zero or an error or a \<open>send\<close> of a response that transfers fewer bytes than the
  record, after any number of passes that went well, ends the server: the connection is
  closed (\<open>closesocket\<close> is the last act), \<open>main\<close> returns -1, and no further connection
  is accepted, whatever connections are waiting.
\<close>

theorem transport_fault_ends_server:
  assumes "menu_send_complete c" and "exchanges c = pre @ e # post"
    and "list_all continuing pre" and "transport_fault e"
  shows "fst (accept_loop ovf (Accepted c # rest) g) = Exited (- 1) \<and>
         last (snd (accept_loop ovf (Accepted c # rest) g)) = Closesocket \<and>
         count_list (snd (accept_loop ovf (Accepted c # rest) g)) Accept = 1 \<and>
         accept_loop ovf (Accepted c # rest) g = accept_loop ovf [Accepted c] g"
proof -
  obtain acts g' where s: "session ovf (exchanges c) (initial_response c) g =
      (Session_fault, acts, g')" and a: "acts \<noteq> []" "last acts = Closesocket"
      "Accept \<notin> set acts"
    using session_fault [OF assms(3,4), of ovf post "initial_response c" g] assms(2)
    by auto
  have "count_list acts Accept = 0" using a(3) by (simp add: count_list_0_iff)
  then show ?thesis using assms(1) s a by simp
qed

text \<open>A connection served once whose second response is sent short, with another
  connection waiting.\<close>

theorem transport_fault_ends_server_witness:
  "fst (accept_loop wrap32 [Accepted short_send_connection, Accepted silent_connection] rand0)
     = Exited (- 1) \<and>
   count_list (snd (accept_loop wrap32
     [Accepted short_send_connection, Accepted silent_connection] rand0)) Accept = 1 \<and>
   accept_loop wrap32 [Accepted short_send_connection, Accepted silent_connection] rand0 =
     accept_loop wrap32 [Accepted short_send_connection] rand0"
proof -
  let ?e1 = "\<lparr>recv_result = Received (request CHR ''n'' ''6''), stale_password_type = 0,
          send_complete = True\<rparr>"
  let ?e2 = "\<lparr>recv_result = Received (request CHR ''a'' ''7''), stale_password_type = 0,
          send_complete = False\<rparr>"
  have 1: "menu_send_complete short_send_connection"
    by (simp add: short_send_connection_def)
  have 2: "exchanges short_send_connection = [?e1] @ ?e2 # []"
    by (simp add: short_send_connection_def)
  have 3: "list_all continuing [?e1]"
    by (simp add: continuing_def request_def keep_generating_q)
  have 4: "transport_fault ?e2" by (simp add: transport_fault_def)
  from transport_fault_ends_server [OF 1 2 3 4, of wrap32 "[Accepted silent_connection]" rand0]
  show ?thesis by blast
qed

text \<open>
  C2 as stated fails: after a failed \<open>recv\<close> on the first connection the server exits
  with -1, and the connection that waits is never accepted. Had the first session ended
  with the sentinel, the second would have been accepted.
\<close>

theorem transport_fault_stops_accepting:
  "accept_loop wrap32 [Accepted faulty_connection, Accepted silent_connection] rand0 =
     (Exited (- 1), [Accept, Send_menu, Closesocket]) \<and>
   fst (accept_loop wrap32 [Accepted quitting_connection, Accepted silent_connection] rand0) =
     Blocked_in_recv \<and>
   count_list (snd (accept_loop wrap32
     [Accepted quitting_connection, Accepted silent_connection] rand0)) Accept = 2"
  by code_simp

section \<open>Proofs: the prompt loop of the client\<close>

text \<open>What \<open>sscanf\<close> returns, by the number of tokens on the line.\<close>

lemma sscanf_shape:
  "(dropWhile isspace input = [] \<and> sscanf_c_s_s input = (EOF, None, None, None)) \<or>
   (\<exists>c rest. dropWhile isspace input = c # rest \<and> list_all isspace rest \<and>
      sscanf_c_s_s input = (1, Some c, None, None)) \<or>
   (\<exists>c rest. dropWhile isspace input = c # rest \<and> \<not> list_all isspace rest \<and>
      (\<exists>s1. sscanf_c_s_s input = (2, Some c, Some s1, None) \<or>
            (\<exists>s2. sscanf_c_s_s input = (3, Some c, Some s1, Some s2))))"
proof (cases "dropWhile isspace input")
  case Nil
  show ?thesis by (simp add: sscanf_c_s_s_def Nil)
next
  case outer: (Cons c rest)
  show ?thesis
  proof (cases "dropWhile isspace rest")
    case Nil
    then have "list_all isspace rest" by (simp add: list_all_iff)
    then show ?thesis by (simp add: sscanf_c_s_s_def outer Nil)
  next
    case inner: (Cons x xs)
    have n: "\<not> list_all isspace rest"
    proof
      assume "list_all isspace rest"
      then have "dropWhile isspace rest = []" by (simp add: list_all_iff)
      with inner show False by simp
    qed
    show ?thesis
    proof (cases "dropWhile isspace (dropWhile (\<lambda>y. \<not> isspace y) (x # xs))")
      case Nil
      have "sscanf_c_s_s input =
          (2, Some c, Some (takeWhile (\<lambda>y. \<not> isspace y) (x # xs)), None)"
        unfolding sscanf_c_s_s_def outer list.case inner Let_def Nil ..
      then show ?thesis using n outer by blast
    next
      case (Cons y ys)
      have "sscanf_c_s_s input =
          (3, Some c, Some (takeWhile (\<lambda>y. \<not> isspace y) (x # xs)),
           Some (takeWhile (\<lambda>z. \<not> isspace z) (y # ys)))"
        unfolding sscanf_c_s_s_def outer list.case inner Let_def Cons ..
      then show ?thesis using n outer by blast
    qed
  qed
qed

lemma sscanf_count: "fst (sscanf_c_s_s input) \<in> {EOF, 1, 2, 3}"
  using sscanf_shape [of input] by auto

lemma sscanf_one:
  "fst (sscanf_c_s_s input) = 1 \<Longrightarrow> \<exists>c. sscanf_c_s_s input = (1, Some c, None, None)"
  using sscanf_shape [of input] by (auto simp: EOF_def)

lemma sscanf_one_iff:
  "fst (sscanf_c_s_s input) = 1 \<longleftrightarrow>
     (\<exists>c rest. dropWhile isspace input = c # rest \<and> list_all isspace rest)"
proof -
  consider (none) "dropWhile isspace input = []" "sscanf_c_s_s input = (EOF, None, None, None)"
    | (one) c rest where "dropWhile isspace input = c # rest" "list_all isspace rest"
        "sscanf_c_s_s input = (1, Some c, None, None)"
    | (more) c rest where "dropWhile isspace input = c # rest" "\<not> list_all isspace rest"
        "fst (sscanf_c_s_s input) = 2 \<or> fst (sscanf_c_s_s input) = 3"
    using sscanf_shape [of input] by fastforce
  then show ?thesis
  proof cases
    case none
    show ?thesis by (simp add: none EOF_def)
  next
    case one
    show ?thesis by (simp add: one)
  next
    case more
    show ?thesis using more(3) by (auto simp: more(1) more(2))
  qed
qed

text \<open>One pass, by the count, and the loop around a pass that sends.\<close>

lemma client_iteration_reprompt:
  assumes "fst (sscanf_c_s_s (input_line pr)) \<noteq> 1" and "fst (sscanf_c_s_s (input_line pr)) \<noteq> 2"
  shows "\<exists>pm'. client_iteration pr pm rm = (Client_next pm' (rm\<lparr>keep_going := True\<rparr>), [])"
proof -
  obtain n c s1 s2 where s: "sscanf_c_s_s (input_line pr) = (n, c, s1, s2)"
    by (cases "sscanf_c_s_s (input_line pr)")
  have "n \<noteq> 1" "n \<noteq> 2" using assms s by simp_all
  then show ?thesis by (simp add: client_iteration_def s Let_def)
qed

lemma client_iteration_default:
  assumes "fst (sscanf_c_s_s (input_line pr)) = 1"
  shows "\<exists>req. client_iteration pr pm rm = client_exchange pr req \<and>
           c_str (length_str req) = ''8'' \<and>
           Some (type req) = fst (snd (sscanf_c_s_s (input_line pr)))"
proof -
  obtain c where s: "sscanf_c_s_s (input_line pr) = (1, Some c, None, None)"
    using assms sscanf_one by blast
  have e: "c_str (strcpy b ''8'') = ''8''" for b by (rule c_str_strcpy) simp
  define req where
    "req = pm\<lparr>type := c, length_str := strcpy ((length_str pm)[BUFFER_SIZE - 1 := NUL]) ''8''\<rparr>"
  have "client_iteration pr pm rm = client_exchange pr req"
    by (simp add: client_iteration_def s req_def)
  moreover have "c_str (length_str req) = ''8''" "type req = c"
    by (simp_all add: req_def e)
  ultimately show ?thesis by (intro exI [of _ req]) (simp add: s)
qed

lemma client_loop_exchange:
  assumes "client_iteration pr pm rm = client_exchange pr req"
  shows "client_loop (pr # prs) pm rm =
           (if \<not> send_whole pr then (Client_exited (- 1), [req])
            else case response_received pr of
                   None \<Rightarrow> (Client_exited (- 1), [req])
                 | Some r \<Rightarrow>
                     if keep_going r
                     then (fst (client_loop prs req r), req # snd (client_loop prs req r))
                     else (Client_exited 0, [req]))"
  by (simp add: assms client_exchange_def split_beta split: option.splits)

lemma client_loop_first_sent:
  assumes "client_iteration pr pm rm = client_exchange pr req"
  shows "snd (client_loop (pr # prs) pm rm) \<noteq> [] \<and> hd (snd (client_loop (pr # prs) pm rm)) = req"
  unfolding client_loop_exchange [OF assms] by (simp split: option.splits)

text \<open>
  C9. When the count \<open>sscanf\<close> returns for the input line is neither 1 nor 2, the pass
  hands nothing to \<open>send\<close>, sets \<open>keep_going\<close>, and the loop goes on with the next prompt:
  if that one has a single token, its request is the first the loop sends. When the count
  is 1 (a class and no length) the pass sends one request, with the class typed and the
  default length \<open>8\<close>, and the loop ends or goes on as the \<open>send\<close>, the \<open>recv\<close> and the
  response decide.
\<close>

theorem wrong_argument_count_reprompts:
  "(fst (sscanf_c_s_s (input_line pr)) \<noteq> 1 \<and> fst (sscanf_c_s_s (input_line pr)) \<noteq> 2 \<longrightarrow>
      snd (client_iteration pr pm rm) = [] \<and>
      (\<exists>pm'. fst (client_iteration pr pm rm) = Client_next pm' (rm\<lparr>keep_going := True\<rparr>) \<and>
             client_loop (pr # prs) pm rm = client_loop prs pm' (rm\<lparr>keep_going := True\<rparr>)) \<and>
      (fst (sscanf_c_s_s (input_line pr2)) = 1 \<longrightarrow>
         (\<exists>req. snd (client_loop (pr # pr2 # prs) pm rm) \<noteq> [] \<and>
                hd (snd (client_loop (pr # pr2 # prs) pm rm)) = req \<and>
                c_str (length_str req) = ''8'' \<and>
                Some (type req) = fst (snd (sscanf_c_s_s (input_line pr2)))))) \<and>
   (fst (sscanf_c_s_s (input_line pr)) = 1 \<longrightarrow>
      (\<exists>req. snd (client_iteration pr pm rm) = [req] \<and> c_str (length_str req) = ''8'' \<and>
             Some (type req) = fst (snd (sscanf_c_s_s (input_line pr))) \<and>
             client_loop (pr # prs) pm rm =
               (if \<not> send_whole pr then (Client_exited (- 1), [req])
                else case response_received pr of
                       None \<Rightarrow> (Client_exited (- 1), [req])
                     | Some r \<Rightarrow>
                         if keep_going r
                         then (fst (client_loop prs req r), req # snd (client_loop prs req r))
                         else (Client_exited 0, [req]))))"
proof (intro conjI impI)
  assume a: "fst (sscanf_c_s_s (input_line pr)) \<noteq> 1 \<and> fst (sscanf_c_s_s (input_line pr)) \<noteq> 2"
  obtain pm' where i: "client_iteration pr pm rm = (Client_next pm' (rm\<lparr>keep_going := True\<rparr>), [])"
    using client_iteration_reprompt a by blast
  show "snd (client_iteration pr pm rm) = []" by (simp add: i)
  have l: "client_loop (pr # ps) pm rm = client_loop ps pm' (rm\<lparr>keep_going := True\<rparr>)" for ps
    by (simp add: i split_beta)
  show "\<exists>pm'. fst (client_iteration pr pm rm) = Client_next pm' (rm\<lparr>keep_going := True\<rparr>) \<and>
             client_loop (pr # prs) pm rm = client_loop prs pm' (rm\<lparr>keep_going := True\<rparr>)"
    using i l by auto
  assume b: "fst (sscanf_c_s_s (input_line pr2)) = 1"
  obtain req where r: "client_iteration pr2 pm' (rm\<lparr>keep_going := True\<rparr>) = client_exchange pr2 req"
    "c_str (length_str req) = ''8''" "Some (type req) = fst (snd (sscanf_c_s_s (input_line pr2)))"
    using client_iteration_default [OF b] by blast
  show "\<exists>req. snd (client_loop (pr # pr2 # prs) pm rm) \<noteq> [] \<and>
                hd (snd (client_loop (pr # pr2 # prs) pm rm)) = req \<and>
                c_str (length_str req) = ''8'' \<and>
                Some (type req) = fst (snd (sscanf_c_s_s (input_line pr2)))"
    using client_loop_first_sent [OF r(1), of prs] r(2,3) unfolding l by blast
next
  assume b: "fst (sscanf_c_s_s (input_line pr)) = 1"
  obtain req where r: "client_iteration pr pm rm = client_exchange pr req"
    "c_str (length_str req) = ''8''" "Some (type req) = fst (snd (sscanf_c_s_s (input_line pr)))"
    using client_iteration_default [OF b] by blast
  have "snd (client_iteration pr pm rm) = [req]"
    by (simp add: r(1) client_exchange_def split: option.splits)
  then show "\<exists>req. snd (client_iteration pr pm rm) = [req] \<and> c_str (length_str req) = ''8'' \<and>
             Some (type req) = fst (snd (sscanf_c_s_s (input_line pr))) \<and>
             client_loop (pr # prs) pm rm =
               (if \<not> send_whole pr then (Client_exited (- 1), [req])
                else case response_received pr of
                       None \<Rightarrow> (Client_exited (- 1), [req])
                     | Some r \<Rightarrow>
                         if keep_going r
                         then (fst (client_loop prs req r), req # snd (client_loop prs req r))
                         else (Client_exited 0, [req]))"
    using r(2,3) client_loop_exchange [OF r(1), of prs] by blast
qed

text \<open>A line of three tokens followed by the single token \<open>s\<close>: the loop sends
  \<open>('s', "8")\<close> and nothing else, and prompts again. Two bad lines send nothing.\<close>

theorem wrong_argument_count_reprompts_witness:
  "fst (sscanf_c_s_s (input_line (typed ''n 8 extra\<newline>''))) = 3 \<and>
   fst (sscanf_c_s_s (input_line (typed ''s\<newline>''))) = 1 \<and>
   snd (client_iteration (typed ''n 8 extra\<newline>'') (request CHR ''x'' []) blank_response) = [] \<and>
   fst (client_loop [typed ''n 8 extra\<newline>'', typed ''s\<newline>''] (request CHR ''x'' [])
     blank_response) = Client_waiting \<and>
   map (\<lambda>req. (type req, c_str (length_str req)))
     (snd (client_loop [typed ''n 8 extra\<newline>'', typed ''s\<newline>''] (request CHR ''x'' [])
        blank_response)) = [(CHR ''s'', ''8'')] \<and>
   client_loop [typed ''\<newline>'', typed ''n 8 extra\<newline>''] (request CHR ''x'' [])
     blank_response = (Client_waiting, [])"
proof -
  have a: "fst (sscanf_c_s_s (input_line (typed ''n 8 extra\<newline>''))) = 3"
    "fst (sscanf_c_s_s (input_line (typed ''s\<newline>''))) = 1"
    "fst (snd (sscanf_c_s_s (input_line (typed ''s\<newline>'')))) = Some CHR ''s''"
    by (simp_all add: sscanf_c_s_s_def typed_def isspace_def EOF_def)
  have v: "fst (client_loop [typed ''n 8 extra\<newline>'', typed ''s\<newline>''] (request CHR ''x'' [])
     blank_response) = Client_waiting"
    "length (snd (client_loop [typed ''n 8 extra\<newline>'', typed ''s\<newline>''] (request CHR ''x'' [])
     blank_response)) = 1"
    "client_loop [typed ''\<newline>'', typed ''n 8 extra\<newline>''] (request CHR ''x'' [])
     blank_response = (Client_waiting, [])"
    by code_simp+
  from wrong_argument_count_reprompts
    [of "typed ''n 8 extra\<newline>''" "request CHR ''x'' []" blank_response "[]" "typed ''s\<newline>''"]
  have 1: "snd (client_iteration (typed ''n 8 extra\<newline>'') (request CHR ''x'' []) blank_response) = []"
    and "\<exists>req. snd (client_loop [typed ''n 8 extra\<newline>'', typed ''s\<newline>'']
            (request CHR ''x'' []) blank_response) \<noteq> [] \<and>
          hd (snd (client_loop [typed ''n 8 extra\<newline>'', typed ''s\<newline>'']
            (request CHR ''x'' []) blank_response)) = req \<and>
          c_str (length_str req) = ''8'' \<and>
          Some (type req) = fst (snd (sscanf_c_s_s (input_line (typed ''s\<newline>''))))"
    by (simp_all add: a)
  then obtain req where r:
    "hd (snd (client_loop [typed ''n 8 extra\<newline>'', typed ''s\<newline>'']
            (request CHR ''x'' []) blank_response)) = req"
    "c_str (length_str req) = ''8''" "type req = CHR ''s''"
    by (auto simp: a)
  obtain x where x: "snd (client_loop [typed ''n 8 extra\<newline>'', typed ''s\<newline>'']
            (request CHR ''x'' []) blank_response) = [x]"
    using v(2) by (auto simp: length_Suc_conv)
  have "x = req" using r(1) x by simp
  then have "map (\<lambda>req. (type req, c_str (length_str req)))
     (snd (client_loop [typed ''n 8 extra\<newline>'', typed ''s\<newline>''] (request CHR ''x'' [])
        blank_response)) = [(CHR ''s'', ''8'')]"
    using r(2,3) x by simp
  then show ?thesis using a(1,2) 1 v(1,3) by blast
qed

end
